theory Spec2Isabelle
  imports Complex_Main "HOL-Library.Word" "HOL-Library.Signed_Division" "HOL-Library.Log_Nat"
begin

section \<open>shotsegments: shot boundaries of a video, embedded from main.cpp\<close>

text \<open>
  The program reads a video frame by frame, scores each frame against its predecessor,
  records the frames whose score jumps over a threshold as markers, and prints the
  segments between adjacent markers.

  Conventions of the embedding.
  \<^item> In the scan and in the segment loop a C++ \<open>int\<close> is an \<open>int\<close>: frame indices,
    scores and segment numbers stay far inside the machine type. Division and
    remainder of \<open>int\<close> truncate towards zero in C++: they are \<open>sdiv\<close> and \<open>smod\<close> here,
    not \<open>div\<close> and \<open>mod\<close>.
  \<^item> In the score a \<open>double\<close> is a \<open>real\<close>: the sum of the differences and the pixel
    count are integers that a \<open>double\<close> holds exactly.
  \<^item> In \<open>timespec\<close> the machine arithmetic is written out: the quotient \<open>frame / fps\<close> is
    the IEEE 754 binary64 quotient, correctly rounded, and \<open>int\<close> has 32 bits.
  \<^item> A C++ exception is a value \<open>Inl e\<close> of a sum type.
  \<^item> The results of option parsing are the fields of \<open>config\<close>; the diagnostic output
    of \<open>--verbose\<close> is not part of the model.
\<close>

subsection \<open>Errors\<close>

datatype error =
  StdOutOfRange          \<comment> \<open>\<open>std::out_of_range\<close>, thrown by \<open>std::string::substr\<close>\<close>
| CvSizeMismatch         \<comment> \<open>\<open>cv::Exception\<close>, thrown by \<open>cv::absdiff\<close> on arrays of different size\<close>
| UndefinedConversion    \<comment> \<open>the score with \<open>numPixels = 0\<close>: \<open>double\<close> to \<open>int\<close> of a quotient by zero\<close>

subsection \<open>Stream formatting: \<open>operator<<\<close> on \<open>int\<close>, \<open>std::setw\<close>, \<open>std::setfill\<close>\<close>

definition digit_char :: "nat \<Rightarrow> char" where
  "digit_char d = ''0123456789'' ! d"

fun show_nat :: "nat \<Rightarrow> string" where
  "show_nat n = (if n < 10 then [digit_char n] else show_nat (n div 10) @ [digit_char (n mod 10)])"

declare show_nat.simps [simp del]

text \<open>\<open>ss << n\<close> for an \<open>int\<close>: decimal digits, a minus sign first when negative.\<close>

definition show_int :: "int \<Rightarrow> string" where
  "show_int n = (if n < 0 then CHR ''-'' # show_nat (nat (- n)) else show_nat (nat n))"

text \<open>\<open>std::setfill('0') << std::setw(w)\<close> before one item: the item is right-aligned and
  filled with zeros on the left up to the width \<open>w\<close>; a longer item is not cut.\<close>

definition setw_fill0 :: "nat \<Rightarrow> string \<Rightarrow> string" where
  "setw_fill0 w s = replicate (w - length s) CHR ''0'' @ s"

subsection \<open>\<open>std::string::rfind\<close> and \<open>std::string::substr\<close>\<close>

text \<open>A position or count of type \<open>size_t\<close> is a \<open>nat option\<close>: \<open>None\<close> is
  \<open>std::string::npos\<close>, which is larger than the size of every string.\<close>

fun rfind :: "string \<Rightarrow> char \<Rightarrow> nat option" where
  "rfind [] c = None"
| "rfind (x # xs) c =
     (case rfind xs c of
        Some i \<Rightarrow> Some (Suc i)
      | None \<Rightarrow> if x = c then Some 0 else None)"

text \<open>\<open>s.substr(pos, count)\<close> throws \<open>std::out_of_range\<close> when \<open>pos > s.size()\<close> and
  otherwise returns the characters from \<open>pos\<close>, at most \<open>count\<close> of them.\<close>

definition substr :: "string \<Rightarrow> nat option \<Rightarrow> nat option \<Rightarrow> error + string" where
  "substr s pos count =
     (case pos of
        None \<Rightarrow> Inl StdOutOfRange
      | Some p \<Rightarrow>
          if p > length s then Inl StdOutOfRange
          else Inr (case count of None \<Rightarrow> drop p s | Some n \<Rightarrow> take n (drop p s)))"

subsection \<open>\<open>segmentfile\<close>\<close>

definition segmentfile :: "string \<Rightarrow> int \<Rightarrow> error + string" where
  "segmentfile basis segment =
     (let pos = rfind basis CHR ''.'' in
      case substr basis (Some 0) pos of
        Inl e \<Rightarrow> Inl e
      | Inr stem \<Rightarrow>
          (case substr basis pos None of
             Inl e \<Rightarrow> Inl e
           | Inr ext \<Rightarrow> Inr (stem @ ''-'' @ show_int segment @ ext)))"

subsection \<open>The arithmetic of \<open>double\<close> and \<open>int\<close> in \<open>timespec\<close>\<close>

text \<open>A \<open>double\<close>: a finite value, given by the real number it denotes, an infinity or
  not-a-number. The two zeros are one value here; they convert to the same \<open>int\<close>, and
  so do the two infinities.\<close>

datatype double = Finite real | PosInf | NegInf | NaN

text \<open>The binary exponent of a positive real: \<open>ilog2 x = \<lfloor>log\<^sub>2 x\<rfloor>\<close>.\<close>

definition ilog2 :: "real \<Rightarrow> int" where
  "ilog2 x = (if 1 \<le> x then bitlen \<lfloor>x\<rfloor> - 1 else - bitlen (\<lceil>1 / x\<rceil> - 1))"

text \<open>The nearest integer; of two nearest ones the even one.\<close>

definition round_half_even :: "real \<Rightarrow> int" where
  "round_half_even y =
     (let f = \<lfloor>y\<rfloor>; d = y - of_int f in
      if d < 1 / 2 then f
      else if 1 / 2 < d then f + 1
      else if even f then f else f + 1)"

text \<open>Rounding to binary64, to nearest with ties to even: 53 bits of precision, the
  exponent of a normal number between \<open>-1022\<close> and \<open>1023\<close>, denormal numbers below, and
  an infinity where the rounded value would reach \<open>2 ^ 1024\<close>.\<close>

definition round_to_double :: "real \<Rightarrow> double" where
  "round_to_double x =
     (if x = 0 then Finite 0
      else
        (let e = max (ilog2 \<bar>x\<bar>) (- 1022);
             ulp = 2 powi (e - 52);
             r = of_int (round_half_even (\<bar>x\<bar> / ulp)) * ulp
         in if 2 ^ 1024 \<le> r then (if 0 < x then PosInf else NegInf)
            else Finite (sgn x * r)))"

text \<open>\<open>a / b\<close> on two finite values of type \<open>double\<close>: the exact quotient, rounded; a
  division by zero gives an infinity, or not-a-number for \<open>0 / 0\<close>.\<close>

definition double_div :: "real \<Rightarrow> real \<Rightarrow> double" where
  "double_div a b =
     (if b = 0 then (if a = 0 then NaN else if 0 < a then PosInf else NegInf)
      else round_to_double (a / b))"

text \<open>The conversion of a \<open>double\<close> to \<open>int\<close>: the fractional part is discarded.\<close>

definition double_to_int :: "real \<Rightarrow> int" where
  "double_to_int x = (if 0 \<le> x then \<lfloor>x\<rfloor> else \<lceil>x\<rceil>)"

text \<open>The same conversion into the 32 bits of an \<open>int\<close>. Where the result does not fit,
  and for an infinity or not-a-number, C++ defines no result; the model takes the value
  that the conversion instruction of x86-64 (\<open>cvttsd2si\<close>) returns, \<open>INT_MIN\<close>.\<close>

definition double_to_int32 :: "double \<Rightarrow> int" where
  "double_to_int32 d =
     (case d of
        Finite x \<Rightarrow>
          if - (2 ^ 31) - 1 < x \<and> x < 2 ^ 31 then double_to_int x else - (2 ^ 31)
      | _ \<Rightarrow> - (2 ^ 31))"

text \<open>The result of an addition or subtraction of \<open>int\<close>, in 32 bits two's complement:
  signed overflow, for which C++ defines no result either, wraps around.\<close>

definition wrap_int :: "int \<Rightarrow> int" where
  "wrap_int x = (x + 2 ^ 31) mod 2 ^ 32 - 2 ^ 31"

subsection \<open>\<open>timespec\<close>\<close>

datatype ts_mode = TS_INPUT | TS_OUTPUT | TS_DURATION

text \<open>\<open>int totalSeconds = frame / fps;\<close> The \<open>int\<close> \<open>frame\<close> is converted to \<open>double\<close>, which is
  exact, and \<open>fps\<close> is the real number that the \<open>double\<close> denotes; a frame rate that is
  an infinity or not-a-number is outside the model.\<close>

definition frame_seconds :: "int \<Rightarrow> real \<Rightarrow> int" where
  "frame_seconds frame fps = double_to_int32 (double_div (of_int frame) fps)"

definition timespec :: "int \<Rightarrow> real \<Rightarrow> ts_mode \<Rightarrow> string" where
  "timespec frame fps mode =
     (let totalSeconds0 = frame_seconds frame fps;
          totalSeconds =
            (case mode of
               TS_INPUT \<Rightarrow> wrap_int (totalSeconds0 - totalSeconds0 smod 60)
             | TS_OUTPUT \<Rightarrow> totalSeconds0 smod 60
             | TS_DURATION \<Rightarrow> wrap_int (totalSeconds0 + 1));
          hours = totalSeconds sdiv 60 sdiv 60;
          minutes = (totalSeconds sdiv 60) smod 60;
          seconds = totalSeconds smod 60
      in setw_fill0 2 (show_int hours) @ '':'' @
         setw_fill0 2 (show_int minutes) @ '':'' @
         setw_fill0 2 (show_int seconds))"

subsection \<open>Options\<close>

definition DefaultThreshold :: int where
  "DefaultThreshold = 50"

definition DefaultMinDuration :: int where
  "DefaultMinDuration = 1000"

text \<open>The local variables of \<open>main\<close> that option parsing sets.\<close>

record config =
  inputFile :: string
  saveImages :: bool
  ffmpeg :: bool
  threshold :: int
  minDuration :: int

definition usage :: string where
  "usage =
     ''usage: shotsegments --in <video-file>\<newline>'' @
     ''                    [--save-images]\<newline>'' @
     ''                    [--threshold t='' @ show_int DefaultThreshold @ '']\<newline>'' @
     ''                    [--min-duration d='' @ show_int DefaultMinDuration @ '']\<newline>'' @
     ''                    [--ffmpeg]\<newline>'' @
     ''                    [--verbose[=level]]\<newline>'' @
     ''                    [--help]\<newline>'' @
     ''\<newline>''"

subsection \<open>The segment loop of \<open>main\<close>\<close>

text \<open>What one surviving segment prints: the body of \<open>if (len >= minDuration)\<close> after
  \<open>segment++\<close>. The character \<open>CHR 0x22\<close> is the double quote.\<close>

definition emit :: "config \<Rightarrow> real \<Rightarrow> int \<Rightarrow> int \<Rightarrow> int \<Rightarrow> error + string" where
  "emit cfg fps segment start end =
     (if ffmpeg cfg then
        (case segmentfile (inputFile cfg) segment of
           Inl e \<Rightarrow> Inl e
         | Inr file \<Rightarrow>
             Inr (''ffmpeg'' @ '' -ss '' @ timespec start fps TS_INPUT @
                  '' -i '' @ [CHR 0x22] @ inputFile cfg @ [CHR 0x22] @
                  '' -ss '' @ timespec start fps TS_OUTPUT @
                  '' -t '' @ timespec (end - start) fps TS_DURATION @
                  '' -c copy'' @ '' -y'' @ '' '' @ file @ ''\<newline>''))
      else
        Inr (show_int segment @ '': '' @ show_int start @ '' - '' @ show_int end @ ''\<newline>''))"

text \<open>\<open>for (size_t i = 1; i < markers.size(); i++)\<close>, with the counter \<open>segment\<close> and the
  lines printed so far as the state of the loop.\<close>

function segments_loop ::
  "config \<Rightarrow> real \<Rightarrow> int list \<Rightarrow> nat \<Rightarrow> int \<Rightarrow> string list \<Rightarrow> error + string list" where
  "segments_loop cfg fps ms i segment out =
     (if i < length ms then
        (let len = ms ! i - ms ! (i - 1) in
         if len \<ge> minDuration cfg then
           (let segment' = segment + 1;
                start = ms ! (i - 1);
                end = ms ! i
            in case emit cfg fps segment' start end of
                 Inl e \<Rightarrow> Inl e
               | Inr line \<Rightarrow> segments_loop cfg fps ms (i + 1) segment' (out @ [line]))
         else segments_loop cfg fps ms (i + 1) segment out)
      else Inr out)"
  by pat_completeness auto
termination
  by (relation "measure (\<lambda>(cfg, fps, ms, i, segment, out). length ms - i)") auto

declare segments_loop.simps [simp del]

definition report :: "config \<Rightarrow> real \<Rightarrow> int list \<Rightarrow> error + string list" where
  "report cfg fps ms = segments_loop cfg fps ms 1 0 []"

subsection \<open>Frames and the score of a frame\<close>

text \<open>A grey-scale \<open>cv::Mat\<close> of 8-bit pixels, as \<open>cv::cvtColor\<close> returns it: its dimensions and
  its pixels row by row. Decoding and the conversion to grey are OpenCV's; a video is
  modelled by the grey-scale frames the scan works on.\<close>

record Mat =
  rows :: int
  cols :: int
  data :: "8 word list"

text \<open>\<open>cv::saturate_cast<uchar>\<close> of an \<open>int\<close>.\<close>

definition saturate_uchar :: "int \<Rightarrow> 8 word" where
  "saturate_uchar v = (if v < 0 then 0 else if v > 255 then 255 else word_of_int v)"

text \<open>\<open>cv::absdiff(a, b, dst)\<close>: \<open>dst(I) = saturate(|a(I) - b(I)|)\<close>; arrays of different
  sizes are refused with an exception.\<close>

definition absdiff :: "Mat \<Rightarrow> Mat \<Rightarrow> error + Mat" where
  "absdiff a b =
     (if rows a = rows b \<and> cols a = cols b then
        Inr \<lparr>rows = rows a, cols = cols a,
             data = map2 (\<lambda>x y. saturate_uchar \<bar>uint x - uint y\<bar>) (data a) (data b)\<rparr>
      else Inl CvSizeMismatch)"

text \<open>\<open>cv::sum(m)[0]\<close>: the sum of the pixels, a \<open>double\<close>.\<close>

definition sum_mat :: "Mat \<Rightarrow> real" where
  "sum_mat m = (\<Sum>x\<leftarrow>data m. of_int (uint x))"

text \<open>Lines 137 to 139 of \<open>main\<close>:
  \<^verbatim>\<open>cv::absdiff(current, previous, diffs); cv::Scalar s = cv::sum(diffs); int score = s[0] / numPixels;\<close>\<close>

definition score :: "Mat \<Rightarrow> Mat \<Rightarrow> int \<Rightarrow> error + int" where
  "score current previous numPixels =
     (case absdiff current previous of
        Inl e \<Rightarrow> Inl e
      | Inr diffs' \<Rightarrow>
          (let s = sum_mat diffs' in
           if numPixels = 0 then Inl UndefinedConversion
           else Inr (double_to_int (s / of_int numPixels))))"

subsection \<open>The scan of \<open>main\<close>\<close>

text \<open>The name of the file \<open>save\<close> writes; the image itself is not modelled.\<close>

definition save :: "int \<Rightarrow> string \<Rightarrow> string" where
  "save n suffix = setw_fill0 8 (show_int n) @ ''-'' @ suffix @ ''.jpg''"

text \<open>The local variables of \<open>main\<close> that the scan reads and writes, and the names of
  the image files written so far.\<close>

record detector =
  previous :: Mat
  frame :: int
  numPixels :: int
  lastScore :: int
  markers :: "int list"
  images :: "string list"

text \<open>Lines 126 to 132: the state after the first frame has been read.\<close>

definition first_frame :: "config \<Rightarrow> Mat \<Rightarrow> detector" where
  "first_frame cfg m =
     \<lparr>previous = m, frame = 1, numPixels = rows m * cols m, lastScore = 0,
      markers = [0],
      images = (if saveImages cfg then [save 0 ''in''] else [])\<rparr>"

text \<open>Lines 135 to 155: the body of \<open>while (video.read(currentColor))\<close>.\<close>

definition step :: "config \<Rightarrow> detector \<Rightarrow> Mat \<Rightarrow> error + detector" where
  "step cfg st current =
     (case score current (previous st) (numPixels st) of
        Inl e \<Rightarrow> Inl e
      | Inr sc \<Rightarrow>
          (let scoreDiff = \<bar>sc - lastScore st\<bar>;
               st1 = (if sc > threshold cfg \<and> scoreDiff > threshold cfg then
                        st\<lparr>markers := markers st @ [frame st],
                           images := images st @
                             (if saveImages cfg
                              then [save (frame st - 1) ''out'', save (frame st) ''in'']
                              else [])\<rparr>
                      else st)
           in Inr (st1\<lparr>lastScore := sc, previous := current, frame := frame st + 1\<rparr>)))"

text \<open>The loop over the frames that \<open>video.read\<close> still delivers.\<close>

fun scan :: "config \<Rightarrow> detector \<Rightarrow> Mat list \<Rightarrow> error + detector" where
  "scan cfg st [] = Inr st"
| "scan cfg st (current # rest) =
     (case step cfg st current of
        Inl e \<Rightarrow> Inl e
      | Inr st' \<Rightarrow> scan cfg st' rest)"

text \<open>Lines 158 to 161: the closing marker.\<close>

definition last_frame :: "config \<Rightarrow> detector \<Rightarrow> detector" where
  "last_frame cfg st =
     st\<lparr>markers := markers st @ [frame st - 1],
        images := images st @ (if saveImages cfg then [save (frame st - 1) ''out''] else [])\<rparr>"

text \<open>Lines 126 to 161 on a stream whose first frame is \<open>m\<close> and whose further frames
  are \<open>rest\<close>.\<close>

definition detect :: "config \<Rightarrow> Mat \<Rightarrow> Mat list \<Rightarrow> error + detector" where
  "detect cfg m rest =
     (case scan cfg (first_frame cfg m) rest of
        Inl e \<Rightarrow> Inl e
      | Inr st \<Rightarrow> Inr (last_frame cfg st))"

subsection \<open>\<open>main\<close>\<close>

text \<open>An opened \<open>cv::VideoCapture\<close>: the frames it delivers before \<open>read\<close> fails, and its
  \<open>CAP_PROP_FPS\<close>.\<close>

record video =
  v_frames :: "Mat list"
  v_fps :: real

text \<open>What a run that returns from \<open>main\<close> leaves behind.\<close>

record run =
  exit_code :: int
  stdout :: "string list"
  stderr :: "string list"
  files :: "string list"

text \<open>\<open>main\<close> after option parsing; \<open>None\<close> is a video that \<open>video.open\<close> cannot open. An
  exception that leaves \<open>main\<close> is the result \<open>Inl e\<close>. The character \<open>CHR 0x27\<close> is the
  apostrophe.\<close>

definition main :: "config \<Rightarrow> video option \<Rightarrow> error + run" where
  "main cfg v =
     (if inputFile cfg = [] then
        Inr \<lparr>exit_code = 0, stdout = [usage], stderr = [], files = []\<rparr>
      else
        (case v of
           None \<Rightarrow>
             Inr \<lparr>exit_code = 1, stdout = [],
                  stderr = [inputFile cfg @ '': can'' @ [CHR 0x27] @ ''t open video\<newline>''],
                  files = []\<rparr>
         | Some vid \<Rightarrow>
             (case v_frames vid of
                [] \<Rightarrow>
                  Inr \<lparr>exit_code = 1, stdout = [],
                       stderr = [inputFile cfg @ '': need some frames\<newline>''],
                       files = []\<rparr>
              | m # rest \<Rightarrow>
                  (case detect cfg m rest of
                     Inl e \<Rightarrow> Inl e
                   | Inr st \<Rightarrow>
                       (case report cfg (v_fps vid) (markers st) of
                          Inl e \<Rightarrow> Inl e
                        | Inr out \<Rightarrow>
                            Inr \<lparr>exit_code = 0, stdout = out, stderr = [],
                                 files = images st\<rparr>)))))"

section \<open>Definitions that follow the specification\<close>

text \<open>These definitions are not taken from the code. They say in the words of the
  specification what the code is compared with.\<close>

text \<open>A well-formed matrix has one pixel for each position.\<close>

definition wf_Mat :: "Mat \<Rightarrow> bool" where
  "wf_Mat m \<longleftrightarrow> 0 \<le> rows m \<and> 0 \<le> cols m \<and> int (length (data m)) = rows m * cols m"

text \<open>The score of the specification: the sum of the absolute differences of the pixel
  intensities, position by position, divided by the number of pixels and truncated.\<close>

definition mean_abs_diff :: "Mat \<Rightarrow> Mat \<Rightarrow> int" where
  "mean_abs_diff a b =
     (\<Sum>i<length (data a). \<bar>uint (data a ! i) - uint (data b ! i)\<bar>) div int (length (data a))"

text \<open>The segments of the specification: the pairs of adjacent markers, in order; those
  not shorter than the minimum duration; and a list numbered 1, 2, 3, ... in its order.\<close>

definition adjacent :: "int list \<Rightarrow> (int \<times> int) list" where
  "adjacent ms = zip ms (tl ms)"

definition surviving :: "int \<Rightarrow> int list \<Rightarrow> (int \<times> int) list" where
  "surviving d ms = filter (\<lambda>(a, b). \<not> b - a < d) (adjacent ms)"

definition numbered :: "'a list \<Rightarrow> (int \<times> 'a) list" where
  "numbered xs = zip (map int [1..<Suc (length xs)]) xs"

text \<open>The results of a sequence of prints that may throw: the first exception ends it.\<close>

fun collect :: "(error + 'a) list \<Rightarrow> error + 'a list" where
  "collect [] = Inr []"
| "collect (x # xs) =
     (case x of
        Inl e \<Rightarrow> Inl e
      | Inr v \<Rightarrow> (case collect xs of Inl e \<Rightarrow> Inl e | Inr vs \<Rightarrow> Inr (v # vs)))"

text \<open>A stream of one fixed resolution: the first frame has at least one pixel and every
  further frame has the dimensions of the first.\<close>

definition uniform :: "Mat \<Rightarrow> Mat list \<Rightarrow> bool" where
  "uniform m rest \<longleftrightarrow>
     0 < rows m * cols m \<and> (\<forall>f \<in> set rest. rows f = rows m \<and> cols f = cols m)"

text \<open>\<open>ss\<close> are the scores of the frames after the first, each against its predecessor:
  \<open>ss ! (k - 1)\<close> is the score of frame \<open>k\<close>, for \<open>k\<close> from 1.\<close>

definition scores_of :: "int \<Rightarrow> Mat \<Rightarrow> Mat list \<Rightarrow> int list \<Rightarrow> bool" where
  "scores_of np m rest ss \<longleftrightarrow>
     map2 (\<lambda>cur prev. score cur prev np) rest (m # rest) = map Inr ss"

text \<open>Frame \<open>k\<close>, from 1, is a detected cut: its score and the absolute difference to the
  score of the frame before are both greater than the threshold. \<open>(0 # ss) ! k\<close> is the
  score of frame \<open>k\<close>; the first frame has no score, and 0 stands for it, as \<open>lastScore\<close>
  does before the loop.\<close>

definition is_cut :: "int \<Rightarrow> int list \<Rightarrow> nat \<Rightarrow> bool" where
  "is_cut th ss k \<longleftrightarrow> th < (0 # ss) ! k \<and> th < \<bar>(0 # ss) ! k - (0 # ss) ! (k - 1)\<bar>"

text \<open>The indices of the detected cuts, each once, in the order of the frames.\<close>

definition cut_frames :: "int \<Rightarrow> int list \<Rightarrow> int list" where
  "cut_frames th ss = map int (filter (is_cut th ss) [1..<Suc (length ss)])"

text \<open>Data of the examples: a frame of one pixel, and the options of a plain report with
  the default threshold and a minimum duration of one frame.\<close>

definition one_pixel :: "8 word \<Rightarrow> Mat" where
  "one_pixel v = \<lparr>rows = 1, cols = 1, data = [v]\<rparr>"

definition plain_options :: config where
  "plain_options =
     \<lparr>inputFile = ''clip.mp4'', saveImages = False, ffmpeg = False, threshold = 50, minDuration = 1\<rparr>"

section \<open>Properties\<close>

subsection \<open>Formatting and strings\<close>

lemma show_nat_digit: "n < 10 \<Longrightarrow> show_nat n = [digit_char n]"
  by (subst show_nat.simps) simp

lemma show_nat_step: "10 \<le> n \<Longrightarrow> show_nat n = show_nat (n div 10) @ [digit_char (n mod 10)]"
  by (subst show_nat.simps) simp

lemma rfind_None_iff: "rfind s c = None \<longleftrightarrow> c \<notin> set s"
  by (induction s) (auto split: option.splits)

lemma rfind_last: "c \<notin> set ext \<Longrightarrow> rfind (stem @ c # ext) c = Some (length stem)"
  by (induction stem) (auto simp: rfind_None_iff[THEN iffD2] split: option.splits)

lemma split_at_last:
  assumes "c \<in> set s"
  shows "\<exists>stem ext. s = stem @ c # ext \<and> c \<notin> set ext"
  using assms by (rule split_list_last)

subsection \<open>The name of a segment's file\<close>

lemma segmentfile_dot:
  assumes "CHR ''.'' \<notin> set ext"
  shows "segmentfile (stem @ CHR ''.'' # ext) segment = Inr (stem @ ''-'' @ show_int segment @ CHR ''.'' # ext)"
  using assms by (simp add: segmentfile_def rfind_last substr_def)

lemma segmentfile_no_dot:
  assumes "CHR ''.'' \<notin> set basis"
  shows "segmentfile basis segment = Inl StdOutOfRange"
  using assms by (simp add: segmentfile_def rfind_None_iff[THEN iffD2] substr_def)

text \<open>
  Claim C9. For an input file name with at least one dot, \<open>segmentfile\<close> returns the
  name with a hyphen and the decimal segment number inserted immediately before the
  last dot, the one that starts the final extension: with \<open>basis = stem.ext\<close> and no dot
  in \<open>ext\<close>, the result is \<open>stem-N.ext\<close>. In particular \<open>clip.mp4\<close> and segment 3 give
  \<open>clip-3.mp4\<close>.
\<close>

theorem segmentfile_inserts_number:
  "(CHR ''.'' \<in> set basis \<longrightarrow>
      (\<exists>stem ext. basis = stem @ CHR ''.'' # ext \<and> CHR ''.'' \<notin> set ext \<and>
         segmentfile basis segment = Inr (stem @ ''-'' @ show_int segment @ CHR ''.'' # ext)))
   \<and> segmentfile ''clip.mp4'' 3 = Inr ''clip-3.mp4''"
proof (intro conjI impI)
  assume dot: "CHR ''.'' \<in> set basis"
  from split_at_last [OF dot] obtain stem ext
    where b: "basis = stem @ CHR ''.'' # ext" and e: "CHR ''.'' \<notin> set ext"
    by (elim exE conjE)
  from e have "segmentfile basis segment = Inr (stem @ ''-'' @ show_int segment @ CHR ''.'' # ext)"
    unfolding b by (rule segmentfile_dot)
  with b e show "\<exists>stem ext. basis = stem @ CHR ''.'' # ext \<and> CHR ''.'' \<notin> set ext \<and>
         segmentfile basis segment = Inr (stem @ ''-'' @ show_int segment @ CHR ''.'' # ext)"
    by (intro exI [of _ stem] exI [of _ ext] conjI)
next
  have "segmentfile (''clip'' @ CHR ''.'' # ''mp4'') 3 = Inr (''clip'' @ ''-'' @ show_int 3 @ CHR ''.'' # ''mp4'')"
    by (rule segmentfile_dot) simp
  then show "segmentfile ''clip.mp4'' 3 = Inr ''clip-3.mp4''"
    by (simp add: show_int_def show_nat_digit digit_char_def)
qed

theorem segmentfile_inserts_number_witness:
  "CHR ''.'' \<in> set ''a.b/shot.tar.gz'' \<and>
   (\<exists>stem ext. ''a.b/shot.tar.gz'' = stem @ CHR ''.'' # ext \<and> CHR ''.'' \<notin> set ext \<and>
         segmentfile ''a.b/shot.tar.gz'' 12 = Inr (stem @ ''-'' @ show_int 12 @ CHR ''.'' # ext)) \<and>
   segmentfile ''a.b/shot.tar.gz'' 12 = Inr ''a.b/shot.tar-12.gz''"
proof (intro conjI)
  show d: "CHR ''.'' \<in> set ''a.b/shot.tar.gz''" by simp
  show "segmentfile ''a.b/shot.tar.gz'' 12 = Inr ''a.b/shot.tar-12.gz''" by code_simp
  from segmentfile_inserts_number [of "''a.b/shot.tar.gz''" 12, THEN conjunct1, rule_format, OF d]
  show "\<exists>stem ext. ''a.b/shot.tar.gz'' = stem @ CHR ''.'' # ext \<and> CHR ''.'' \<notin> set ext \<and>
         segmentfile ''a.b/shot.tar.gz'' 12 = Inr (stem @ ''-'' @ show_int 12 @ CHR ''.'' # ext)" .
qed

text \<open>
  Claim C10. \<open>segmentfile\<close> returns a name only for an input file name with a dot. For a
  name without one, \<open>rfind\<close> returns \<open>npos\<close>, \<open>basis.substr(npos)\<close> throws
  \<open>std::out_of_range\<close>, and the call fails, whatever the segment number.
\<close>

theorem segmentfile_needs_dot:
  "(CHR ''.'' \<notin> set basis \<longrightarrow> segmentfile basis segment = Inl StdOutOfRange) \<and>
   ((\<exists>name. segmentfile basis segment = Inr name) \<longleftrightarrow> CHR ''.'' \<in> set basis)"
proof (cases "CHR ''.'' \<in> set basis")
  case True
  from split_at_last [OF True] obtain stem ext
    where "basis = stem @ CHR ''.'' # ext" "CHR ''.'' \<notin> set ext"
    by (elim exE conjE)
  then have "segmentfile basis segment = Inr (stem @ ''-'' @ show_int segment @ CHR ''.'' # ext)"
    by (simp add: segmentfile_dot)
  with True show ?thesis by simp
next
  case False
  then have "segmentfile basis segment = Inl StdOutOfRange"
    by (rule segmentfile_no_dot)
  with False show ?thesis by simp
qed


theorem segmentfile_needs_dot_witness:
  "CHR ''.'' \<notin> set ''clip'' \<and> segmentfile ''clip'' 3 = Inl StdOutOfRange \<and>
   \<not> (\<exists>name. segmentfile ''clip'' 3 = Inr name)"
  using segmentfile_needs_dot [of "''clip''" 3] by simp

subsection \<open>Timecodes\<close>

text \<open>On values that are not negative the truncating division and remainder of C++ are
  \<open>div\<close> and \<open>mod\<close>. The rounded quotient of a dividend that is not negative by a positive
  divisor is not negative, and the conversion keeps inside 32 bits.\<close>

lemma sdiv_nonneg: "0 \<le> a \<Longrightarrow> 0 < b \<Longrightarrow> (a::int) sdiv b = a div b"
  by (simp add: signed_divide_int_def sgn_if)

lemma smod_nonneg: "0 \<le> a \<Longrightarrow> 0 < b \<Longrightarrow> (a::int) smod b = a mod b"
  by (simp add: signed_modulo_int_def sgn_if)

lemma round_half_even_nonneg: "0 \<le> y \<Longrightarrow> 0 \<le> round_half_even y"
  by (simp add: round_half_even_def Let_def)

lemma round_to_double_nonneg:
  assumes "0 \<le> x" and "round_to_double x = Finite q"
  shows "0 \<le> q"
proof (cases "x = 0")
  case True
  with assms(2) show ?thesis by (simp add: round_to_double_def)
next
  case False
  define ulp :: real where "ulp = 2 powi (max (ilog2 \<bar>x\<bar>) (- 1022) - 52)"
  have ulp: "0 < ulp" by (simp add: ulp_def)
  have "0 \<le> \<bar>x\<bar> / ulp" using ulp by simp
  then have n: "0 \<le> round_half_even (\<bar>x\<bar> / ulp)" by (rule round_half_even_nonneg)
  from assms(2) False have "q = sgn x * (of_int (round_half_even (\<bar>x\<bar> / ulp)) * ulp)"
    by (simp add: round_to_double_def Let_def ulp_def split: if_splits)
  moreover have "sgn x = 1" using assms(1) False by simp
  ultimately show ?thesis using n ulp by simp
qed

lemma double_div_nonneg:
  assumes "0 \<le> a" and "0 < b" and "double_div a b = Finite q"
  shows "0 \<le> q"
proof -
  have "0 \<le> a / b" using assms(1,2) by simp
  moreover have "round_to_double (a / b) = Finite q"
    using assms(2,3) by (simp add: double_div_def)
  ultimately show ?thesis by (rule round_to_double_nonneg)
qed

text \<open>The model of the rounding is the rounding to nearest: \<open>ilog2\<close> is the binary
  exponent, \<open>round_half_even\<close> is within one half of its argument, and a finite result of
  \<open>round_to_double\<close> is within half a unit in the last place of the exact value.\<close>

lemma round_half_even_close: "\<bar>of_int (round_half_even y) - y\<bar> \<le> 1 / 2"
proof -
  have "of_int \<lfloor>y\<rfloor> \<le> y" "y < of_int \<lfloor>y\<rfloor> + 1" by linarith+
  then show ?thesis by (auto simp: round_half_even_def Let_def)
qed

lemma ilog2_bounds:
  assumes "0 < x"
  shows "2 powi ilog2 x \<le> x" and "x < 2 powi (ilog2 x + 1)"
proof -
  have "2 powi ilog2 x \<le> x \<and> x < 2 powi (ilog2 x + 1)"
  proof (cases "1 \<le> x")
    case True
    define k where "k = \<lfloor>x\<rfloor>"
    have k: "0 < k" using True by (simp add: k_def)
    from bitlen_bounds [OF k] have lo: "2 ^ nat (bitlen k - 1) \<le> k" and hi: "k < 2 ^ nat (bitlen k)"
      by simp_all
    have b1: "1 \<le> bitlen k" using k by (simp add: bitlen_alt_def)
    have e: "ilog2 x = bitlen k - 1" using True by (simp add: ilog2_def k_def)
    have "(2::real) powi (bitlen k - 1) = 2 ^ nat (bitlen k - 1)"
      using b1 by (simp add: power_int_def)
    also have "\<dots> \<le> of_int k" using lo by (metis of_int_le_iff of_int_numeral of_int_power)
    also have "\<dots> \<le> x" unfolding k_def by linarith
    finally have 1: "2 powi ilog2 x \<le> x" by (simp add: e)
    have "k + 1 \<le> 2 ^ nat (bitlen k)" using hi by simp
    then have "of_int (k + 1) \<le> (2::real) ^ nat (bitlen k)"
      by (metis of_int_le_iff of_int_numeral of_int_power)
    moreover have "x < of_int (k + 1)" unfolding k_def by linarith
    ultimately have "x < 2 ^ nat (bitlen k)" by (rule less_le_trans [rotated])
    moreover have "(2::real) powi (bitlen k - 1 + 1) = 2 ^ nat (bitlen k)"
      using b1 by (simp add: power_int_def)
    ultimately have 2: "x < 2 powi (ilog2 x + 1)" by (simp add: e)
    from 1 2 show ?thesis ..
  next
    case False
    then have x1: "x < 1" by simp
    define c where "c = \<lceil>1 / x\<rceil>"
    have y: "1 < 1 / x" using assms x1 by simp
    then have c: "0 < c - 1" by (simp add: c_def less_ceiling_iff)
    define n where "n = bitlen (c - 1)"
    from bitlen_bounds [OF c] have lo: "2 ^ nat (n - 1) \<le> c - 1" and hi: "c - 1 < 2 ^ nat n"
      by (simp_all add: n_def)
    have n1: "1 \<le> n" using c by (simp add: n_def bitlen_alt_def)
    have e: "ilog2 x = - n" using False by (simp add: ilog2_def c_def n_def)
    have "c \<le> 2 ^ nat n" using hi by simp
    then have "of_int c \<le> (2::real) ^ nat n" by (metis of_int_le_iff of_int_numeral of_int_power)
    moreover have "1 / x \<le> of_int c" by (simp add: c_def)
    ultimately have "1 / x \<le> 2 ^ nat n" by (rule order_trans [rotated])
    then have "1 \<le> 2 ^ nat n * x" using assms by (simp add: field_simps)
    then have "inverse (2 ^ nat n) \<le> x" by (simp add: field_simps)
    moreover have "(2::real) powi (- n) = inverse (2 ^ nat n)"
    proof -
      have "(2::real) powi n = 2 ^ nat n" using n1 by (simp add: power_int_def)
      then show ?thesis by (simp only: power_int_minus)
    qed
    ultimately have 1: "2 powi ilog2 x \<le> x" by (simp add: e)
    have "of_int (2 ^ nat (n - 1)) \<le> (of_int (c - 1) :: real)" using lo by (simp only: of_int_le_iff)
    moreover have "of_int (c - 1) < 1 / x" unfolding c_def by linarith
    ultimately have "of_int (2 ^ nat (n - 1)) < 1 / x" by (rule le_less_trans)
    then have "2 ^ nat (n - 1) < 1 / x" by simp
    then have "2 ^ nat (n - 1) * x < 1" using assms by (simp add: field_simps)
    then have "x < inverse (2 ^ nat (n - 1))" by (simp add: field_simps)
    moreover have "(2::real) powi (- n + 1) = inverse (2 ^ nat (n - 1))"
    proof -
      have "(2::real) powi (n - 1) = 2 ^ nat (n - 1)" using n1 by (simp add: power_int_def)
      moreover have "- n + 1 = - (n - 1)" by simp
      ultimately show ?thesis by (simp only: power_int_minus)
    qed
    ultimately have 2: "x < 2 powi (ilog2 x + 1)" by (simp add: e)
    from 1 2 show ?thesis ..
  qed
  then show "2 powi ilog2 x \<le> x" and "x < 2 powi (ilog2 x + 1)" by simp_all
qed

lemma round_to_double_close:
  assumes "round_to_double x = Finite r"
  shows "\<bar>r - x\<bar> \<le> 2 powi (max (ilog2 \<bar>x\<bar>) (- 1022) - 52) / 2"
proof (cases "x = 0")
  case True
  with assms show ?thesis by (simp add: round_to_double_def)
next
  case False
  define ulp :: real where "ulp = 2 powi (max (ilog2 \<bar>x\<bar>) (- 1022) - 52)"
  define n where "n = round_half_even (\<bar>x\<bar> / ulp)"
  have ulp: "0 < ulp" by (simp add: ulp_def)
  from assms False have r: "r = sgn x * (of_int n * ulp)"
    by (simp add: round_to_double_def Let_def ulp_def n_def split: if_splits)
  have "\<bar>of_int n - \<bar>x\<bar> / ulp\<bar> \<le> 1 / 2" unfolding n_def by (rule round_half_even_close)
  then have "\<bar>of_int n - \<bar>x\<bar> / ulp\<bar> * ulp \<le> 1 / 2 * ulp"
    using ulp by (intro mult_right_mono) simp_all
  moreover have "\<bar>of_int n - \<bar>x\<bar> / ulp\<bar> * ulp = \<bar>of_int n * ulp - \<bar>x\<bar>\<bar>"
  proof -
    have "\<bar>of_int n - \<bar>x\<bar> / ulp\<bar> * ulp = \<bar>(of_int n - \<bar>x\<bar> / ulp) * ulp\<bar>"
      using ulp by (simp add: abs_mult)
    also have "(of_int n - \<bar>x\<bar> / ulp) * ulp = of_int n * ulp - \<bar>x\<bar>"
      using ulp by (simp add: field_simps)
    finally show ?thesis .
  qed
  ultimately have close: "\<bar>of_int n * ulp - \<bar>x\<bar>\<bar> \<le> ulp / 2" by simp
  have "sgn x * \<bar>x\<bar> = x" by (rule sgn_mult_abs)
  then have "r - x = sgn x * (of_int n * ulp - \<bar>x\<bar>)"
    unfolding r by (simp only: right_diff_distrib)
  then have "\<bar>r - x\<bar> = \<bar>of_int n * ulp - \<bar>x\<bar>\<bar>"
    using False by (simp add: abs_mult abs_sgn_eq)
  with close show ?thesis by (simp add: ulp_def)
qed

text \<open>At a frame rate of at least one frame per second the quotient of a frame index
  is finite, not negative and below the index plus one: the range conditions of the
  claims about timecodes hold for every such video.\<close>

lemma double_div_int_range:
  fixes fps :: real
  assumes "0 \<le> n" and "n < 2 ^ 31" and "1 \<le> fps"
  shows "\<exists>q. double_div (of_int n) fps = Finite q \<and> 0 \<le> q \<and> q < of_int n + 1"
proof (cases "n = 0")
  case True
  then show ?thesis using assms(3) by (simp add: double_div_def round_to_double_def)
next
  case False
  define x :: real where "x = of_int n / fps"
  have n: "0 < n" using assms(1) False by simp
  have x: "0 < x" using n assms(3) by (simp add: x_def)
  have "x \<le> of_int n / 1" unfolding x_def using n assms(3) by (intro divide_left_mono) simp_all
  then have xn: "x \<le> of_int n" by simp
  have "of_int n < (2 ^ 31 :: real)" using assms(2) by (metis of_int_less_iff of_int_numeral of_int_power)
  with xn have x31: "x < 2 ^ 31" by simp
  define e where "e = max (ilog2 \<bar>x\<bar>) (- 1022)"
  define ulp :: real where "ulp = 2 powi (e - 52)"
  define r where "r = of_int (round_half_even (\<bar>x\<bar> / ulp)) * ulp"
  have "2 powi ilog2 x \<le> x" using x by (rule ilog2_bounds)
  with x31 have "(2::real) powi ilog2 x < 2 powi 31" by simp
  then have "ilog2 x < 31" by (intro power_int_le_imp_less_exp [of "2::real"]) simp_all
  then have e: "e \<le> 30" using x by (simp add: e_def)
  have ulp: "0 < ulp" by (simp add: ulp_def)
  have "ulp \<le> 2 powi (- 22)" unfolding ulp_def using e by (intro power_int_increasing) simp_all
  then have ulp1: "ulp \<le> 1" by (simp add: power_int_minus)
  have "0 \<le> \<bar>x\<bar> / ulp" using ulp by simp
  then have "0 \<le> round_half_even (\<bar>x\<bar> / ulp)"
    by (simp add: round_half_even_def Let_def)
  then have r0: "0 \<le> r" using ulp by (simp add: r_def)
  have "\<bar>of_int (round_half_even (\<bar>x\<bar> / ulp)) - \<bar>x\<bar> / ulp\<bar> \<le> 1 / 2"
    by (rule round_half_even_close)
  then have "of_int (round_half_even (\<bar>x\<bar> / ulp)) \<le> \<bar>x\<bar> / ulp + 1 / 2" by linarith
  then have "of_int (round_half_even (\<bar>x\<bar> / ulp)) * ulp \<le> (\<bar>x\<bar> / ulp + 1 / 2) * ulp"
    using ulp by (intro mult_right_mono) simp_all
  also have "\<dots> = x + ulp / 2" using ulp x by (simp add: field_simps)
  finally have "r \<le> x + ulp / 2" by (simp add: r_def)
  with xn ulp1 have rn: "r < of_int n + 1" by simp
  have "n + 1 \<le> 2 ^ 31" using assms(2) by simp
  then have "of_int (n + 1) \<le> (2 ^ 31 :: real)"
    by (metis of_int_le_iff of_int_numeral of_int_power)
  then have "of_int n + 1 \<le> (2 ^ 31 :: real)" by simp
  moreover have "(2 ^ 31 :: real) \<le> 2 ^ 1024" by (rule power_increasing) simp_all
  ultimately have "of_int n + 1 \<le> (2 ^ 1024 :: real)" by (rule order_trans)
  with rn have "r < 2 ^ 1024" by (rule less_le_trans)
  then have "round_to_double x = Finite r"
    using x by (simp add: round_to_double_def Let_def e_def ulp_def r_def)
  then have "double_div (of_int n) fps = Finite r"
    using assms(3) by (simp add: double_div_def x_def)
  with r0 rn show ?thesis by (intro exI [of _ r]) simp
qed

lemma double_to_int32_range: "- (2 ^ 31) \<le> double_to_int32 d" "double_to_int32 d < 2 ^ 31"
proof -
  have "- (2 ^ 31) \<le> double_to_int x \<and> double_to_int x < 2 ^ 31"
    if "- (2 ^ 31) - 1 < x" and "x < 2 ^ 31" for x :: real
  proof (cases "0 \<le> x")
    case True
    then have "0 \<le> \<lfloor>x\<rfloor>" by simp
    moreover have "\<lfloor>x\<rfloor> < 2 ^ 31" using that(2) by (simp add: floor_less_iff)
    ultimately show ?thesis using True by (simp add: double_to_int_def)
  next
    case False
    then have "\<lceil>x\<rceil> \<le> 0" by (simp add: ceiling_le_iff)
    moreover have "- (2 ^ 31) - 1 < \<lceil>x\<rceil>" using that(1) by (simp add: less_ceiling_iff)
    ultimately show ?thesis using False by (simp add: double_to_int_def)
  qed
  then show "- (2 ^ 31) \<le> double_to_int32 d" "double_to_int32 d < 2 ^ 31"
    by (auto simp: double_to_int32_def split: double.splits)
qed

lemma double_to_int32_floor:
  assumes "0 \<le> q" and "q < 2 ^ 31"
  shows "double_to_int32 (Finite q) = \<lfloor>q\<rfloor>"
  using assms by (simp add: double_to_int32_def double_to_int_def)

lemma wrap_int_id: "- (2 ^ 31) \<le> x \<Longrightarrow> x < 2 ^ 31 \<Longrightarrow> wrap_int x = x"
  by (simp add: wrap_int_def)

lemma frame_seconds_in_range:
  assumes "0 \<le> start" and "0 < fps" and "double_div (of_int start) fps = Finite q" and "q < 2 ^ 31"
  shows "frame_seconds start fps = \<lfloor>q\<rfloor>" and "0 \<le> \<lfloor>q\<rfloor>" and "\<lfloor>q\<rfloor> < 2 ^ 31"
proof -
  have "0 \<le> (of_int start :: real)" using assms(1) by simp
  then have q: "0 \<le> q" using assms(2,3) by (rule double_div_nonneg)
  show "frame_seconds start fps = \<lfloor>q\<rfloor>"
    unfolding frame_seconds_def assms(3) using q assms(4) by (rule double_to_int32_floor)
  show "0 \<le> \<lfloor>q\<rfloor>" using q by simp
  show "\<lfloor>q\<rfloor> < 2 ^ 31" using assms(4) by (simp add: floor_less_iff)
qed

lemma timespec_in_range:
  assumes "0 \<le> start" and "0 < fps"
    and "double_div (of_int start) fps = Finite q" and "q < 2 ^ 31"
    and "mode = TS_DURATION \<longrightarrow> q < 2 ^ 31 - 1"
  shows "timespec start fps mode =
     (let t = \<lfloor>q\<rfloor>;
          u = (case mode of TS_INPUT \<Rightarrow> t - t mod 60 | TS_OUTPUT \<Rightarrow> t mod 60 | TS_DURATION \<Rightarrow> t + 1)
      in setw_fill0 2 (show_int (u div 3600)) @ '':'' @
         setw_fill0 2 (show_int (u div 60 mod 60)) @ '':'' @
         setw_fill0 2 (show_int (u mod 60)))"
proof -
  define t where "t = \<lfloor>q\<rfloor>"
  have fs: "frame_seconds start fps = t" and t: "0 \<le> t" and t31: "t < 2 ^ 31"
    using frame_seconds_in_range [OF assms(1-4)] by (simp_all add: t_def)
  define u where "u = (case mode of TS_INPUT \<Rightarrow> t - t mod 60 | TS_OUTPUT \<Rightarrow> t mod 60 | TS_DURATION \<Rightarrow> t + 1)"
  have le: "t mod 60 \<le> t" using t by (simp add: zmod_le_nonneg_dividend)
  have dur: "t + 1 < 2 ^ 31" if "mode = TS_DURATION"
  proof -
    from that assms(5) have "q < of_int (2 ^ 31 - 1)" by simp
    then have "\<lfloor>q\<rfloor> < 2 ^ 31 - 1" by (simp only: floor_less_iff)
    then show ?thesis by (simp add: t_def)
  qed
  have u: "0 \<le> u" using t le by (cases mode) (simp_all add: u_def)
  have u': "(case mode of TS_INPUT \<Rightarrow> wrap_int (t - t smod 60) | TS_OUTPUT \<Rightarrow> t smod 60
             | TS_DURATION \<Rightarrow> wrap_int (t + 1)) = u"
  proof (cases mode)
    case TS_INPUT
    have "wrap_int (t - t mod 60) = t - t mod 60"
      using t t31 le by (intro wrap_int_id) simp_all
    then show ?thesis using t by (simp add: TS_INPUT u_def smod_nonneg)
  next
    case TS_OUTPUT
    then show ?thesis using t by (simp add: u_def smod_nonneg)
  next
    case TS_DURATION
    have "wrap_int (t + 1) = t + 1"
      using t dur [OF TS_DURATION] by (intro wrap_int_id) simp_all
    then show ?thesis by (simp add: TS_DURATION u_def)
  qed
  have h: "u sdiv 60 sdiv 60 = u div 3600"
    using u by (simp add: sdiv_nonneg pos_imp_zdiv_nonneg_iff div_mult2_eq [symmetric])
  have m: "(u sdiv 60) smod 60 = u div 60 mod 60"
    using u by (simp add: sdiv_nonneg smod_nonneg pos_imp_zdiv_nonneg_iff)
  have s: "u smod 60 = u mod 60"
    using u by (simp add: smod_nonneg)
  show ?thesis
    unfolding timespec_def fs t_def [symmetric] Let_def u_def [symmetric] u' h m s ..
qed

text \<open>In mode \<open>TS_INPUT\<close> the seconds are a multiple of 60 whatever the conversion gave.\<close>

lemma minute_floor_int32:
  assumes "- (2 ^ 31) \<le> t" and "t < 2 ^ 31"
  shows "wrap_int (t - t smod 60) = 60 * (t sdiv 60)" and "(60 * (t sdiv 60)) smod 60 = 0"
proof -
  have eq: "t - t smod 60 = 60 * (t sdiv 60)" by (rule minus_smod_eq_mult_sdiv)
  have "- (2 ^ 31) \<le> 60 * (t sdiv 60) \<and> 60 * (t sdiv 60) < 2 ^ 31"
  proof (cases "0 \<le> t")
    case True
    then have "t sdiv 60 = t div 60" by (simp add: sdiv_nonneg)
    moreover have "0 \<le> t div 60" using True by (simp add: pos_imp_zdiv_nonneg_iff)
    moreover have "60 * (t div 60) \<le> t" by simp
    ultimately show ?thesis using assms(2) by simp
  next
    case False
    then have "t sdiv 60 = - (\<bar>t\<bar> div 60)" by (simp add: signed_divide_int_def)
    moreover have "0 \<le> \<bar>t\<bar> div 60" by (simp add: pos_imp_zdiv_nonneg_iff)
    moreover have "60 * (\<bar>t\<bar> div 60) \<le> \<bar>t\<bar>" by simp
    ultimately show ?thesis using assms(1) False by simp
  qed
  then have "wrap_int (60 * (t sdiv 60)) = 60 * (t sdiv 60)" by (intro wrap_int_id) simp_all
  then show "wrap_int (t - t smod 60) = 60 * (t sdiv 60)" by (simp only: eq)
  show "(60 * (t sdiv 60)) smod 60 = 0"
    by (simp add: signed_modulo_int_def abs_mult)
qed

lemma setw_fill0_zero: "setw_fill0 2 (show_int 0) = ''00''"
  by (simp add: setw_fill0_def show_int_def show_nat_digit digit_char_def)

lemma seek_seconds_00: "\<exists>hm. timespec start fps TS_INPUT = hm @ '':00''"
proof -
  define t where "t = frame_seconds start fps"
  have r: "- (2 ^ 31) \<le> t" "t < 2 ^ 31"
    unfolding t_def frame_seconds_def by (rule double_to_int32_range)+
  note mf = minute_floor_int32 [OF r]
  have "timespec start fps TS_INPUT =
          (setw_fill0 2 (show_int (60 * (t sdiv 60) sdiv 60 sdiv 60)) @ '':'' @
           setw_fill0 2 (show_int ((60 * (t sdiv 60) sdiv 60) smod 60))) @ '':00''"
    unfolding timespec_def t_def [symmetric] Let_def ts_mode.case mf
    by (simp add: setw_fill0_zero)
  then show ?thesis by (rule exI)
qed

lemma floor_div_60: "\<lfloor>x / 60\<rfloor> = \<lfloor>x :: real\<rfloor> div 60"
  using floor_divide_real_eq_div [of 60 x] by simp

lemma hms_decompose:
  fixes u :: int
  shows "(u div 3600 * 60 + u div 60 mod 60) * 60 + u mod 60 = u"
proof -
  have "u div 3600 = u div 60 div 60" by (simp add: div_mult2_eq [symmetric])
  then have "u div 3600 * 60 + u div 60 mod 60 = u div 60" by simp
  then show ?thesis by simp
qed

text \<open>Quotients of the examples. \<open>6749769941521531 / 281474976710656\<close> is the \<open>double\<close>
  nearest to 23.98 and \<open>6748650790265479 / 281474976710656\<close> the \<open>double\<close> nearest to
  24000 / 1001. The exact quotients
  \<open>7194 / 23.98\<close> and \<open>72000 / (24000 / 1001)\<close> lie just below 300 and 3003; rounded to
  \<open>double\<close> they are 300 and 3003.\<close>

lemma quotient_150_30: "double_div (of_int 150) 30 = Finite 5"
  by code_simp

lemma quotient_180_30: "double_div (of_int 180) 30 = Finite 6"
  by code_simp

lemma quotient_7194: "double_div (of_int 7194) (6749769941521531 / 281474976710656) = Finite 300"
  by code_simp

lemma quotient_72000: "double_div (of_int 72000) (6748650790265479 / 281474976710656) = Finite 3003"
  by code_simp

lemma quotient_int_max_half: "double_div (of_int 2147483647) (1 / 2) = Finite 4294967294"
  by code_simp

lemma quotient_int_max_one: "double_div (of_int 2147483647) 1 = Finite 2147483647"
  by code_simp

lemmas fmt = setw_fill0_def show_int_def show_nat_digit show_nat_step digit_char_def

text \<open>
  Claim C6, amended. For every frame and frame rate the seconds field of the seek
  timecode (mode \<open>TS_INPUT\<close>) is \<open>00\<close>. For a start frame that is not negative and a
  positive frame rate whose quotient \<open>start / fps\<close>, as computed in \<open>double\<close>, is below
  \<open>2 ^ 31\<close>, so that it converts to \<open>int\<close>, the seek timecode is \<open>HH:MM:00\<close> for the whole
  seconds of this quotient floored to a multiple of 60: hours \<open>h\<close> and minutes \<open>m < 60\<close>
  with \<open>(60 h + m) 60 = 60 \<lfloor>q / 60\<rfloor>\<close>.
\<close>

theorem seek_timecode_minute_floor:
  "(\<exists>hm. timespec start fps TS_INPUT = hm @ '':00'') \<and>
   (0 \<le> start \<and> 0 < fps \<and> double_div (of_int start) fps = Finite q \<and> q < 2 ^ 31 \<longrightarrow>
      (\<exists>h m. timespec start fps TS_INPUT =
                 setw_fill0 2 (show_int h) @ '':'' @ setw_fill0 2 (show_int m) @ '':00'' \<and>
               0 \<le> h \<and> 0 \<le> m \<and> m < 60 \<and>
               (h * 60 + m) * 60 = \<lfloor>q\<rfloor> - \<lfloor>q\<rfloor> mod 60 \<and>
               (h * 60 + m) * 60 = 60 * \<lfloor>q / 60\<rfloor>))"
proof (intro conjI impI)
  show "\<exists>hm. timespec start fps TS_INPUT = hm @ '':00''" by (rule seek_seconds_00)
next
  assume a: "0 \<le> start \<and> 0 < fps \<and> double_div (of_int start) fps = Finite q \<and> q < 2 ^ 31"
  then have a1: "0 \<le> start" and a2: "0 < fps"
    and a3: "double_div (of_int start) fps = Finite q" and a4: "q < 2 ^ 31"
    by simp_all
  have a5: "TS_INPUT = TS_DURATION \<longrightarrow> q < 2 ^ 31 - 1" by simp
  define t where "t = \<lfloor>q\<rfloor>"
  define k where "k = t div 60"
  have t: "0 \<le> t" using frame_seconds_in_range(2) [OF a1 a2 a3 a4] by (simp add: t_def)
  then have k: "0 \<le> k" by (simp add: k_def pos_imp_zdiv_nonneg_iff)
  have u: "t - t mod 60 = 60 * k" by (simp add: k_def minus_mod_eq_mult_div)
  have h: "60 * k div 3600 = k div 60" by simp
  have m: "60 * k div 60 mod 60 = k mod 60" by simp
  have "timespec start fps TS_INPUT =
          setw_fill0 2 (show_int (k div 60)) @ '':'' @ setw_fill0 2 (show_int (k mod 60)) @ '':00''"
    unfolding timespec_in_range [OF a1 a2 a3 a4 a5] Let_def t_def [symmetric] ts_mode.case u h m
    by (simp add: setw_fill0_zero)
  moreover have "0 \<le> k div 60" using k by (simp add: pos_imp_zdiv_nonneg_iff)
  moreover have "0 \<le> k mod 60" "k mod 60 < 60" by simp_all
  moreover have "(k div 60 * 60 + k mod 60) * 60 = t - t mod 60" by (simp add: u)
  moreover have "(k div 60 * 60 + k mod 60) * 60 = 60 * \<lfloor>q / 60\<rfloor>"
    unfolding floor_div_60 t_def [symmetric] k_def by simp
  ultimately show "\<exists>h m. timespec start fps TS_INPUT =
                 setw_fill0 2 (show_int h) @ '':'' @ setw_fill0 2 (show_int m) @ '':00'' \<and>
               0 \<le> h \<and> 0 \<le> m \<and> m < 60 \<and>
               (h * 60 + m) * 60 = \<lfloor>q\<rfloor> - \<lfloor>q\<rfloor> mod 60 \<and>
               (h * 60 + m) * 60 = 60 * \<lfloor>q / 60\<rfloor>"
    unfolding t_def [symmetric]
    by (intro exI [of _ "k div 60"] exI [of _ "k mod 60"] conjI)
qed

theorem seek_timecode_minute_floor_witness:
  "(0::int) \<le> 7194 \<and> (0::real) < 6749769941521531 / 281474976710656 \<and>
   double_div (of_int 7194) (6749769941521531 / 281474976710656) = Finite 300 \<and>
   (300::real) < 2 ^ 31 \<and>
   (\<exists>h m. timespec 7194 (6749769941521531 / 281474976710656) TS_INPUT =
            setw_fill0 2 (show_int h) @ '':'' @ setw_fill0 2 (show_int m) @ '':00'' \<and>
          0 \<le> h \<and> 0 \<le> m \<and> m < 60 \<and>
          (h * 60 + m) * 60 = \<lfloor>300 :: real\<rfloor> - \<lfloor>300 :: real\<rfloor> mod 60 \<and>
          (h * 60 + m) * 60 = 60 * \<lfloor>(300 :: real) / 60\<rfloor>) \<and>
   timespec 7194 (6749769941521531 / 281474976710656) TS_INPUT = ''00:05:00''"
proof (intro conjI)
  show a: "(0::int) \<le> 7194" by simp
  show b: "(0::real) < 6749769941521531 / 281474976710656" by simp
  show d: "double_div (of_int 7194) (6749769941521531 / 281474976710656) = Finite 300"
    by (rule quotient_7194)
  show r: "(300::real) < 2 ^ 31" by simp
  have m: "TS_INPUT = TS_DURATION \<longrightarrow> (300::real) < 2 ^ 31 - 1" by simp
  show "timespec 7194 (6749769941521531 / 281474976710656) TS_INPUT = ''00:05:00''"
    unfolding timespec_in_range [OF a b d r m] by (simp add: fmt)
  from seek_timecode_minute_floor [of 7194 "6749769941521531 / 281474976710656" 300,
      THEN conjunct2, rule_format, OF conjI, OF a, OF conjI, OF b, OF conjI, OF d r]
  show "\<exists>h m. timespec 7194 (6749769941521531 / 281474976710656) TS_INPUT =
            setw_fill0 2 (show_int h) @ '':'' @ setw_fill0 2 (show_int m) @ '':00'' \<and>
          0 \<le> h \<and> 0 \<le> m \<and> m < 60 \<and>
          (h * 60 + m) * 60 = \<lfloor>300 :: real\<rfloor> - \<lfloor>300 :: real\<rfloor> mod 60 \<and>
          (h * 60 + m) * 60 = 60 * \<lfloor>(300 :: real) / 60\<rfloor>" .
qed

text \<open>
  Claim C6 as the specification states it, for every start frame that is not negative
  and every positive frame rate, fails where the whole seconds do not fit an \<open>int\<close>: at
  frame \<open>2147483647\<close> and half a frame per second the quotient is \<open>4294967294\<close>, the
  conversion gives \<open>INT_MIN\<close>, and the timecode is \<open>-596523:-14:00\<close>. The whole seconds are
  those of the quotient rounded to \<open>double\<close>: at frame 7194 and 23.98 frames per second
  the exact quotient has the floor 299, and the timecode is \<open>00:05:00\<close>.
\<close>

theorem seek_timecode_overflow:
  "double_div (of_int 2147483647) (1 / 2) = Finite 4294967294 \<and>
   timespec 2147483647 (1 / 2) TS_INPUT = ''-596523:-14:00'' \<and>
   \<lfloor>of_int 7194 / (6749769941521531 / 281474976710656 :: real)\<rfloor> = 299 \<and>
   timespec 7194 (6749769941521531 / 281474976710656) TS_INPUT = ''00:05:00''"
proof (intro conjI)
  show "double_div (of_int 2147483647) (1 / 2) = Finite 4294967294"
    by (rule quotient_int_max_half)
  have fs: "frame_seconds 2147483647 (1 / 2) = - 2147483648"
    unfolding frame_seconds_def quotient_int_max_half by (simp add: double_to_int32_def)
  have u: "wrap_int (- 2147483648 - (- 2147483648) smod 60) = - 2147483640"
    by (simp add: wrap_int_def signed_modulo_int_def)
  have h: "(- 2147483640 :: int) sdiv 60 sdiv 60 = - 596523"
    by (simp add: signed_divide_int_def)
  have m: "((- 2147483640 :: int) sdiv 60) smod 60 = - 14"
    by (simp add: signed_divide_int_def signed_modulo_int_def)
  have s: "(- 2147483640 :: int) smod 60 = 0"
    by (simp add: signed_modulo_int_def)
  have f: "setw_fill0 2 (show_int (- 596523)) = ''-596523''"
    "setw_fill0 2 (show_int (- 14)) = ''-14''" "setw_fill0 2 (show_int 0) = ''00''"
    by (simp_all add: fmt)
  show "timespec 2147483647 (1 / 2) TS_INPUT = ''-596523:-14:00''"
    unfolding timespec_def fs Let_def ts_mode.case u h m s f by simp
  show "\<lfloor>of_int 7194 / (6749769941521531 / 281474976710656 :: real)\<rfloor> = 299" by simp
  have a: "(0::int) \<le> 7194" and b: "(0::real) < 6749769941521531 / 281474976710656"
    and r: "(300::real) < 2 ^ 31" by simp_all
  have i: "TS_INPUT = TS_DURATION \<longrightarrow> (300::real) < 2 ^ 31 - 1" by simp
  show "timespec 7194 (6749769941521531 / 281474976710656) TS_INPUT = ''00:05:00''"
    unfolding timespec_in_range [OF a b quotient_7194 r i] by (simp add: fmt)
qed

text \<open>
  Claim C7, amended. For a start frame that is not negative and a positive frame rate
  whose quotient \<open>start_seconds = start / fps\<close>, as computed in \<open>double\<close>, is below
  \<open>2 ^ 31\<close>, the offset timecode (mode \<open>TS_OUTPUT\<close>) is \<open>00:00:SS\<close> where \<open>SS\<close> is the
  remainder modulo 60 of the whole seconds of the start, so that the offset plus
  \<open>60 \<lfloor>start_seconds / 60\<rfloor>\<close> is \<open>\<lfloor>start_seconds\<rfloor>\<close>.
\<close>

theorem offset_timecode_remainder:
  assumes "0 \<le> start" and "0 < fps"
    and "double_div (of_int start) fps = Finite q" and "q < 2 ^ 31"
  shows "\<exists>s. timespec start fps TS_OUTPUT = ''00:00:'' @ setw_fill0 2 (show_int s) \<and>
             0 \<le> s \<and> s < 60 \<and>
             s = \<lfloor>q\<rfloor> mod 60 \<and>
             s + 60 * \<lfloor>q / 60\<rfloor> = \<lfloor>q\<rfloor>"
proof -
  have a5: "TS_OUTPUT = TS_DURATION \<longrightarrow> q < 2 ^ 31 - 1" by simp
  define t where "t = \<lfloor>q\<rfloor>"
  define s where "s = t mod 60"
  have s: "0 \<le> s" "s < 60" by (simp_all add: s_def)
  have h: "s div 3600 = 0" and m: "s div 60 mod 60 = 0" and r: "s mod 60 = s"
    using s by simp_all
  have "timespec start fps TS_OUTPUT = ''00:00:'' @ setw_fill0 2 (show_int s)"
    unfolding timespec_in_range [OF assms a5] Let_def t_def [symmetric] ts_mode.case
      s_def [symmetric] h m r
    by (simp add: setw_fill0_zero)
  moreover have "s + 60 * \<lfloor>q / 60\<rfloor> = t"
    unfolding floor_div_60 t_def [symmetric] s_def by simp
  ultimately show ?thesis using s unfolding t_def [symmetric] s_def [symmetric]
    by (intro exI [of _ s] conjI) (simp_all add: s_def)
qed

theorem offset_timecode_remainder_witness:
  "(0::int) \<le> 72000 \<and> (0::real) < 6748650790265479 / 281474976710656 \<and>
   double_div (of_int 72000) (6748650790265479 / 281474976710656) = Finite 3003 \<and>
   (3003::real) < 2 ^ 31 \<and>
   (\<exists>s. timespec 72000 (6748650790265479 / 281474976710656) TS_OUTPUT = ''00:00:'' @ setw_fill0 2 (show_int s) \<and>
        0 \<le> s \<and> s < 60 \<and>
        s = \<lfloor>3003 :: real\<rfloor> mod 60 \<and>
        s + 60 * \<lfloor>(3003 :: real) / 60\<rfloor> = \<lfloor>3003 :: real\<rfloor>) \<and>
   timespec 72000 (6748650790265479 / 281474976710656) TS_OUTPUT = ''00:00:03''"
proof (intro conjI)
  show a: "(0::int) \<le> 72000" by simp
  show b: "(0::real) < 6748650790265479 / 281474976710656" by simp
  show d: "double_div (of_int 72000) (6748650790265479 / 281474976710656) = Finite 3003"
    by (rule quotient_72000)
  show r: "(3003::real) < 2 ^ 31" by simp
  have m: "TS_OUTPUT = TS_DURATION \<longrightarrow> (3003::real) < 2 ^ 31 - 1" by simp
  show "timespec 72000 (6748650790265479 / 281474976710656) TS_OUTPUT = ''00:00:03''"
    unfolding timespec_in_range [OF a b d r m] by (simp add: fmt)
  from offset_timecode_remainder [OF a b d r]
  show "\<exists>s. timespec 72000 (6748650790265479 / 281474976710656) TS_OUTPUT = ''00:00:'' @ setw_fill0 2 (show_int s) \<and>
        0 \<le> s \<and> s < 60 \<and>
        s = \<lfloor>3003 :: real\<rfloor> mod 60 \<and>
        s + 60 * \<lfloor>(3003 :: real) / 60\<rfloor> = \<lfloor>3003 :: real\<rfloor>" .
qed

text \<open>
  Claim C7 as the specification states it fails where the whole seconds do not fit an
  \<open>int\<close>: at frame \<open>2147483647\<close> and half a frame per second the offset timecode is
  \<open>00:00:-8\<close>. The seconds of the start are the quotient rounded to \<open>double\<close>: at frame
  72000 and 24000 / 1001 frames per second the exact quotient has the floor 3002, and
  the offset timecode is \<open>00:00:03\<close>.
\<close>

theorem offset_timecode_overflow:
  "double_div (of_int 2147483647) (1 / 2) = Finite 4294967294 \<and>
   timespec 2147483647 (1 / 2) TS_OUTPUT = ''00:00:-8'' \<and>
   \<lfloor>of_int 72000 / (6748650790265479 / 281474976710656 :: real)\<rfloor> = 3002 \<and>
   timespec 72000 (6748650790265479 / 281474976710656) TS_OUTPUT = ''00:00:03''"
proof (intro conjI)
  show "double_div (of_int 2147483647) (1 / 2) = Finite 4294967294"
    by (rule quotient_int_max_half)
  have fs: "frame_seconds 2147483647 (1 / 2) = - 2147483648"
    unfolding frame_seconds_def quotient_int_max_half by (simp add: double_to_int32_def)
  have u: "(- 2147483648 :: int) smod 60 = - 8"
    by (simp add: signed_modulo_int_def)
  have h: "(- 8 :: int) sdiv 60 sdiv 60 = 0" and m: "((- 8 :: int) sdiv 60) smod 60 = 0"
    and s: "(- 8 :: int) smod 60 = - 8"
    by (simp_all add: signed_divide_int_def signed_modulo_int_def)
  have f: "setw_fill0 2 (show_int (- 8)) = ''-8''" "setw_fill0 2 (show_int 0) = ''00''"
    by (simp_all add: fmt)
  show "timespec 2147483647 (1 / 2) TS_OUTPUT = ''00:00:-8''"
    unfolding timespec_def fs Let_def ts_mode.case u h m s f by simp
  show "\<lfloor>of_int 72000 / (6748650790265479 / 281474976710656 :: real)\<rfloor> = 3002" by simp
  have a: "(0::int) \<le> 72000" and b: "(0::real) < 6748650790265479 / 281474976710656"
    and r: "(3003::real) < 2 ^ 31" by simp_all
  have o: "TS_OUTPUT = TS_DURATION \<longrightarrow> (3003::real) < 2 ^ 31 - 1" by simp
  show "timespec 72000 (6748650790265479 / 281474976710656) TS_OUTPUT = ''00:00:03''"
    unfolding timespec_in_range [OF a b quotient_72000 r o] by (simp add: fmt)
qed

text \<open>
  Claim C8, amended. For a length in frames that is not negative and a positive frame
  rate whose quotient \<open>len / fps\<close>, as computed in \<open>double\<close>, is below \<open>2 ^ 31 - 1\<close>, so that
  the whole seconds plus one fit an \<open>int\<close>, the duration timecode (mode \<open>TS_DURATION\<close>) is
  the timecode \<open>HH:MM:SS\<close> of the whole seconds of this quotient plus exactly one second.
  At 30 frames per second the segment from frame 150 to frame 330 has the seek
  timecode \<open>00:00:00\<close>, the offset timecode \<open>00:00:05\<close> and the duration timecode
  \<open>00:00:07\<close>.
\<close>

theorem duration_timecode_plus_one:
  "(0 \<le> len \<and> 0 < fps \<and> double_div (of_int len) fps = Finite q \<and> q < 2 ^ 31 - 1 \<longrightarrow>
      (\<exists>h m s. timespec len fps TS_DURATION =
                  setw_fill0 2 (show_int h) @ '':'' @ setw_fill0 2 (show_int m) @ '':'' @
                  setw_fill0 2 (show_int s) \<and>
                0 \<le> h \<and> 0 \<le> m \<and> m < 60 \<and> 0 \<le> s \<and> s < 60 \<and>
                (h * 60 + m) * 60 + s = \<lfloor>q\<rfloor> + 1)) \<and>
   timespec 150 30 TS_INPUT = ''00:00:00'' \<and>
   timespec 150 30 TS_OUTPUT = ''00:00:05'' \<and>
   timespec (330 - 150) 30 TS_DURATION = ''00:00:07''"
proof (intro conjI impI)
  assume a: "0 \<le> len \<and> 0 < fps \<and> double_div (of_int len) fps = Finite q \<and> q < 2 ^ 31 - 1"
  then have a1: "0 \<le> len" and a2: "0 < fps"
    and a3: "double_div (of_int len) fps = Finite q" and a5: "q < 2 ^ 31 - 1"
    by simp_all
  from a5 have a4: "q < 2 ^ 31" by simp
  from a5 have a5': "TS_DURATION = TS_DURATION \<longrightarrow> q < 2 ^ 31 - 1" by simp
  define u where "u = \<lfloor>q\<rfloor> + 1"
  have u: "0 \<le> u" using frame_seconds_in_range(2) [OF a1 a2 a3 a4] by (simp add: u_def)
  have "timespec len fps TS_DURATION =
          setw_fill0 2 (show_int (u div 3600)) @ '':'' @
          setw_fill0 2 (show_int (u div 60 mod 60)) @ '':'' @
          setw_fill0 2 (show_int (u mod 60))"
    unfolding timespec_in_range [OF a1 a2 a3 a4 a5'] Let_def ts_mode.case u_def ..
  moreover have "0 \<le> u div 3600" using u by (simp add: pos_imp_zdiv_nonneg_iff)
  moreover have "0 \<le> u div 60 mod 60" "u div 60 mod 60 < 60" "0 \<le> u mod 60" "u mod 60 < 60"
    by simp_all
  moreover have "(u div 3600 * 60 + u div 60 mod 60) * 60 + u mod 60 = \<lfloor>q\<rfloor> + 1"
    unfolding hms_decompose by (simp add: u_def)
  ultimately show "\<exists>h m s. timespec len fps TS_DURATION =
                  setw_fill0 2 (show_int h) @ '':'' @ setw_fill0 2 (show_int m) @ '':'' @
                  setw_fill0 2 (show_int s) \<and>
                0 \<le> h \<and> 0 \<le> m \<and> m < 60 \<and> 0 \<le> s \<and> s < 60 \<and>
                (h * 60 + m) * 60 + s = \<lfloor>q\<rfloor> + 1"
    by (intro exI [of _ "u div 3600"] exI [of _ "u div 60 mod 60"] exI [of _ "u mod 60"] conjI)
next
  have a: "(0::int) \<le> 150" and b: "(0::real) < 30" and r: "(5::real) < 2 ^ 31" by simp_all
  have i: "TS_INPUT = TS_DURATION \<longrightarrow> (5::real) < 2 ^ 31 - 1"
    and o: "TS_OUTPUT = TS_DURATION \<longrightarrow> (5::real) < 2 ^ 31 - 1" by simp_all
  show "timespec 150 30 TS_INPUT = ''00:00:00''"
    unfolding timespec_in_range [OF a b quotient_150_30 r i] by (simp add: fmt)
  show "timespec 150 30 TS_OUTPUT = ''00:00:05''"
    unfolding timespec_in_range [OF a b quotient_150_30 r o] by (simp add: fmt)
  have a': "(0::int) \<le> 180" and r': "(6::real) < 2 ^ 31" by simp_all
  have d: "TS_DURATION = TS_DURATION \<longrightarrow> (6::real) < 2 ^ 31 - 1" by simp
  have "timespec 180 30 TS_DURATION = ''00:00:07''"
    unfolding timespec_in_range [OF a' b quotient_180_30 r' d] by (simp add: fmt)
  then show "timespec (330 - 150) 30 TS_DURATION = ''00:00:07''" by simp
qed
theorem duration_timecode_plus_one_witness:
  "(0::int) \<le> 72000 \<and> (0::real) < 6748650790265479 / 281474976710656 \<and>
   double_div (of_int 72000) (6748650790265479 / 281474976710656) = Finite 3003 \<and>
   (3003::real) < 2 ^ 31 - 1 \<and>
   (\<exists>h m s. timespec 72000 (6748650790265479 / 281474976710656) TS_DURATION =
               setw_fill0 2 (show_int h) @ '':'' @ setw_fill0 2 (show_int m) @ '':'' @
               setw_fill0 2 (show_int s) \<and>
             0 \<le> h \<and> 0 \<le> m \<and> m < 60 \<and> 0 \<le> s \<and> s < 60 \<and>
             (h * 60 + m) * 60 + s = \<lfloor>3003 :: real\<rfloor> + 1) \<and>
   timespec 72000 (6748650790265479 / 281474976710656) TS_DURATION = ''00:50:04''"
proof (intro conjI)
  show a: "(0::int) \<le> 72000" by simp
  show b: "(0::real) < 6748650790265479 / 281474976710656" by simp
  show d: "double_div (of_int 72000) (6748650790265479 / 281474976710656) = Finite 3003"
    by (rule quotient_72000)
  show r: "(3003::real) < 2 ^ 31 - 1" by simp
  have r': "(3003::real) < 2 ^ 31" by simp
  have m: "TS_DURATION = TS_DURATION \<longrightarrow> (3003::real) < 2 ^ 31 - 1" by simp
  show "timespec 72000 (6748650790265479 / 281474976710656) TS_DURATION = ''00:50:04''"
    unfolding timespec_in_range [OF a b d r' m] by (simp add: fmt)
  from duration_timecode_plus_one [of 72000 "6748650790265479 / 281474976710656" 3003,
      THEN conjunct1, rule_format, OF conjI, OF a, OF conjI, OF b, OF conjI, OF d r]
  show "\<exists>h m s. timespec 72000 (6748650790265479 / 281474976710656) TS_DURATION =
               setw_fill0 2 (show_int h) @ '':'' @ setw_fill0 2 (show_int m) @ '':'' @
               setw_fill0 2 (show_int s) \<and>
             0 \<le> h \<and> 0 \<le> m \<and> m < 60 \<and> 0 \<le> s \<and> s < 60 \<and>
             (h * 60 + m) * 60 + s = \<lfloor>3003 :: real\<rfloor> + 1" .
qed

text \<open>
  Claim C8 as the specification states it fails where the whole seconds plus one do not
  fit an \<open>int\<close>: for a length of \<open>2147483647\<close> frames at one frame per second
  \<open>totalSeconds++\<close> wraps around to \<open>INT_MIN\<close> and the timecode is \<open>-596523:-14:-8\<close>. The
  whole seconds are those of the quotient rounded to \<open>double\<close>: for 72000 frames at
  24000 / 1001 frames per second the exact quotient has the floor 3002, and the
  duration timecode is \<open>00:50:04\<close>.
\<close>

theorem duration_timecode_overflow:
  "double_div (of_int 2147483647) 1 = Finite 2147483647 \<and>
   timespec 2147483647 1 TS_DURATION = ''-596523:-14:-8'' \<and>
   \<lfloor>of_int 72000 / (6748650790265479 / 281474976710656 :: real)\<rfloor> + 1 = 3003 \<and>
   timespec 72000 (6748650790265479 / 281474976710656) TS_DURATION = ''00:50:04''"
proof (intro conjI)
  show "double_div (of_int 2147483647) 1 = Finite 2147483647"
    by (rule quotient_int_max_one)
  have fs: "frame_seconds 2147483647 1 = 2147483647"
    unfolding frame_seconds_def quotient_int_max_one
    by (simp add: double_to_int32_def double_to_int_def)
  have u: "wrap_int (2147483647 + 1) = - 2147483648"
    by (simp add: wrap_int_def)
  have h: "(- 2147483648 :: int) sdiv 60 sdiv 60 = - 596523"
    by (simp add: signed_divide_int_def)
  have m: "((- 2147483648 :: int) sdiv 60) smod 60 = - 14"
    by (simp add: signed_divide_int_def signed_modulo_int_def)
  have s: "(- 2147483648 :: int) smod 60 = - 8"
    by (simp add: signed_modulo_int_def)
  have f: "setw_fill0 2 (show_int (- 596523)) = ''-596523''"
    "setw_fill0 2 (show_int (- 14)) = ''-14''" "setw_fill0 2 (show_int (- 8)) = ''-8''"
    by (simp_all add: fmt)
  show "timespec 2147483647 1 TS_DURATION = ''-596523:-14:-8''"
    unfolding timespec_def fs Let_def ts_mode.case u h m s f by simp
  show "\<lfloor>of_int 72000 / (6748650790265479 / 281474976710656 :: real)\<rfloor> + 1 = 3003" by simp
  have a: "(0::int) \<le> 72000" and b: "(0::real) < 6748650790265479 / 281474976710656"
    and r: "(3003::real) < 2 ^ 31" by simp_all
  have d: "TS_DURATION = TS_DURATION \<longrightarrow> (3003::real) < 2 ^ 31 - 1" by simp
  show "timespec 72000 (6748650790265479 / 281474976710656) TS_DURATION = ''00:50:04''"
    unfolding timespec_in_range [OF a b quotient_72000 r d] by (simp add: fmt)
qed


subsection \<open>The score\<close>

lemma uint_uchar_bounds: "0 \<le> uint (x :: 8 word)" "uint (x :: 8 word) \<le> 255"
  using uint_bounded [of x] by simp_all

lemma abs_diff_uchar_bounds:
  "0 \<le> \<bar>uint (x :: 8 word) - uint (y :: 8 word)\<bar>" "\<bar>uint (x :: 8 word) - uint (y :: 8 word)\<bar> \<le> 255"
  using uint_uchar_bounds [of x] uint_uchar_bounds [of y] by linarith+

lemma uint_saturate_uchar: "0 \<le> v \<Longrightarrow> v \<le> 255 \<Longrightarrow> uint (saturate_uchar v) = v"
  by (simp add: saturate_uchar_def uint_word_of_int take_bit_int_eq_self)

lemma uint_absdiff_pixel:
  "uint (saturate_uchar \<bar>uint (x :: 8 word) - uint (y :: 8 word)\<bar>) = \<bar>uint x - uint y\<bar>"
  by (rule uint_saturate_uchar) (rule abs_diff_uchar_bounds)+

lemma sum_map2_nth:
  assumes "length xs = length ys"
  shows "(\<Sum>p\<leftarrow>zip xs ys. f (fst p) (snd p)) = (\<Sum>i<length xs. (f (xs ! i) (ys ! i) :: int))"
proof -
  have "(\<Sum>p\<leftarrow>zip xs ys. f (fst p) (snd p)) = (\<Sum>i = 0..<length (zip xs ys). f (fst (zip xs ys ! i)) (snd (zip xs ys ! i)))"
    by (simp add: sum_list_sum_nth)
  also have "\<dots> = (\<Sum>i = 0..<length xs. f (xs ! i) (ys ! i))"
    using assms by (intro sum.cong) simp_all
  finally show ?thesis by (simp add: atLeast0LessThan)
qed

lemma sum_mat_absdiff:
  assumes "absdiff a b = Inr d"
  shows "sum_mat d = of_int (\<Sum>p\<leftarrow>zip (data a) (data b). \<bar>uint (fst p) - uint (snd p)\<bar>)"
proof -
  from assms have d: "data d = map2 (\<lambda>x y. saturate_uchar \<bar>uint x - uint y\<bar>) (data a) (data b)"
    by (auto simp: absdiff_def split: if_splits)
  have "map (\<lambda>x. (of_int (uint x) :: real)) (data d) =
        map of_int (map (\<lambda>p. \<bar>uint (fst p) - uint (snd p)\<bar>) (zip (data a) (data b)))"
    unfolding d by (simp only: map_map comp_def case_prod_beta uint_absdiff_pixel)
  then show ?thesis
    unfolding sum_mat_def by (simp only: sum_list_of_int)
qed

lemma score_value:
  assumes "rows a = rows b" and "cols a = cols b" and "0 < np"
  shows "score a b np = Inr ((\<Sum>p\<leftarrow>zip (data a) (data b). \<bar>uint (fst p) - uint (snd p)\<bar>) div np)"
proof -
  define S where "S = (\<Sum>p\<leftarrow>zip (data a) (data b). \<bar>uint (fst p) - uint (snd p)\<bar>)"
  obtain d where d: "absdiff a b = Inr d"
    using assms(1,2) by (simp add: absdiff_def)
  have S: "0 \<le> S" unfolding S_def by (rule sum_list_nonneg) auto
  have "sum_mat d = of_int S" unfolding S_def by (rule sum_mat_absdiff [OF d])
  moreover have "double_to_int (of_int S / of_int np) = S div np"
    using S assms(3) by (simp add: double_to_int_def floor_divide_of_int_eq)
  ultimately show ?thesis
    using assms(3) unfolding score_def d S_def [symmetric] by simp
qed

lemma mean_abs_diff_bounds:
  assumes "data a \<noteq> []"
  shows "0 \<le> mean_abs_diff a b" and "mean_abs_diff a b \<le> 255"
proof -
  define n where "n = length (data a)"
  define S where "S = (\<Sum>i<n. \<bar>uint (data a ! i) - uint (data b ! i)\<bar>)"
  have n: "0 < int n" using assms by (simp add: n_def)
  have "0 \<le> S" unfolding S_def by (rule sum_nonneg) simp
  then show "0 \<le> mean_abs_diff a b"
    using n unfolding mean_abs_diff_def n_def [symmetric] S_def [symmetric]
    by (simp add: pos_imp_zdiv_nonneg_iff)
  have "S \<le> of_nat (card {..<n}) * 255"
    unfolding S_def by (rule sum_bounded_above) (rule abs_diff_uchar_bounds)
  then have "S \<le> 255 * int n" by simp
  then have "S div int n \<le> 255 * int n div int n" by (rule zdiv_mono1) (rule n)
  then show "mean_abs_diff a b \<le> 255"
    using n unfolding mean_abs_diff_def n_def [symmetric] S_def [symmetric] by simp
qed

text \<open>
  Claim C4. For two grey-scale frames of equal dimensions with at least one pixel, the
  score that \<open>main\<close> computes (\<open>cv::absdiff\<close>, \<open>cv::sum\<close>, division by \<open>numPixels\<close> in
  \<open>double\<close>, conversion to \<open>int\<close>) is the sum of the absolute differences of the pixel
  intensities divided by the number of pixels, truncated to an integer. It lies between
  0 and 255, and the score of a frame against itself is 0.
\<close>

theorem score_is_mean_abs_diff:
  assumes "wf_Mat a" and "wf_Mat b"
    and "rows a = rows b" and "cols a = cols b"
    and "0 < rows a * cols a"
  shows "score a b (rows a * cols a) = Inr (mean_abs_diff a b) \<and>
         0 \<le> mean_abs_diff a b \<and> mean_abs_diff a b \<le> 255 \<and>
         score a a (rows a * cols a) = Inr 0"
proof (intro conjI)
  have la: "int (length (data a)) = rows a * cols a"
    using assms(1) by (simp add: wf_Mat_def)
  have lb: "int (length (data b)) = rows a * cols a"
    using assms(2,3,4) by (simp add: wf_Mat_def)
  from la lb have len: "length (data a) = length (data b)" by simp
  from la assms(5) have ne: "data a \<noteq> []" by auto
  have "score a b (rows a * cols a) =
          Inr ((\<Sum>p\<leftarrow>zip (data a) (data b). \<bar>uint (fst p) - uint (snd p)\<bar>) div (rows a * cols a))"
    using assms(3,4,5) by (rule score_value)
  also have "(\<Sum>p\<leftarrow>zip (data a) (data b). \<bar>uint (fst p) - uint (snd p)\<bar>) =
             (\<Sum>i<length (data a). \<bar>uint (data a ! i) - uint (data b ! i)\<bar>)"
    using len by (rule sum_map2_nth)
  finally show "score a b (rows a * cols a) = Inr (mean_abs_diff a b)"
    by (simp add: mean_abs_diff_def la)
  show "0 \<le> mean_abs_diff a b" and "mean_abs_diff a b \<le> 255"
    using ne by (rule mean_abs_diff_bounds)+
  have "score a a (rows a * cols a) =
          Inr ((\<Sum>p\<leftarrow>zip (data a) (data a). \<bar>uint (fst p) - uint (snd p)\<bar>) div (rows a * cols a))"
    using refl refl assms(5) by (rule score_value)
  also have "(\<Sum>p\<leftarrow>zip (data a) (data a). \<bar>uint (fst p) - uint (snd p)\<bar>) = 0"
    by (simp add: zip_same_conv_map comp_def)
  finally show "score a a (rows a * cols a) = Inr 0" by simp
qed

theorem score_is_mean_abs_diff_witness:
  "wf_Mat \<lparr>rows = 2, cols = 2, data = [9, 9, 10, 255]\<rparr> \<and>
   wf_Mat \<lparr>rows = 2, cols = 2, data = [0, 10, 255, 0]\<rparr> \<and>
   score \<lparr>rows = 2, cols = 2, data = [9, 9, 10, 255]\<rparr>
         \<lparr>rows = 2, cols = 2, data = [0, 10, 255, 0]\<rparr> 4 = Inr 127 \<and>
   mean_abs_diff \<lparr>rows = 2, cols = 2, data = [9, 9, 10, 255]\<rparr>
                 \<lparr>rows = 2, cols = 2, data = [0, 10, 255, 0]\<rparr> = 127 \<and>
   score \<lparr>rows = 2, cols = 2, data = [9, 9, 10, 255]\<rparr>
         \<lparr>rows = 2, cols = 2, data = [9, 9, 10, 255]\<rparr> 4 = Inr 0"
proof -
  let ?a = "\<lparr>rows = 2, cols = 2, data = [9, 9, 10, 255]\<rparr>"
  let ?b = "\<lparr>rows = 2, cols = 2, data = [0, 10, 255, 0]\<rparr>"
  have wa: "wf_Mat ?a" and wb: "wf_Mat ?b" by (simp_all add: wf_Mat_def)
  have v: "mean_abs_diff ?a ?b = 127" by code_simp
  have "score ?a ?b (rows ?a * cols ?a) = Inr (mean_abs_diff ?a ?b) \<and>
        0 \<le> mean_abs_diff ?a ?b \<and> mean_abs_diff ?a ?b \<le> 255 \<and>
        score ?a ?a (rows ?a * cols ?a) = Inr 0"
    by (rule score_is_mean_abs_diff [OF wa wb]) simp_all
  with wa wb v show ?thesis by simp
qed

subsection \<open>The segment loop\<close>

lemma adjacent_nth: "adjacent ms = map (\<lambda>j. (ms ! (j - 1), ms ! j)) [1..<length ms]"
proof (cases ms)
  case Nil
  then show ?thesis by (simp add: adjacent_def)
next
  case (Cons m ms')
  have "zip ms (tl ms) = map (\<lambda>j. (ms ! (j - 1), ms ! j)) [1..<length ms]"
  proof (rule nth_equalityI)
    show "length (zip ms (tl ms)) = length (map (\<lambda>j. (ms ! (j - 1), ms ! j)) [1..<length ms])"
      by simp
  next
    fix i assume "i < length (zip ms (tl ms))"
    then have i: "i < length ms - 1" by simp
    then show "zip ms (tl ms) ! i = map (\<lambda>j. (ms ! (j - 1), ms ! j)) [1..<length ms] ! i"
      by (simp add: nth_tl)
  qed
  then show ?thesis by (simp add: adjacent_def)
qed

lemma number_shift:
  "zip (map (\<lambda>k. seg + int k) [Suc 0..<Suc (Suc n)]) (x # xs) =
   (seg + 1, x) # zip (map (\<lambda>k. (seg + 1) + int k) [Suc 0..<Suc n]) xs"
proof -
  have "[Suc 0..<Suc (Suc n)] = Suc 0 # map Suc [Suc 0..<Suc n]"
    by (simp add: map_Suc_upt upt_conv_Cons del: upt_Suc)
  then show ?thesis by (simp add: comp_def add.assoc del: upt_Suc)
qed

lemma segments_loop_collect:
  assumes "1 \<le> i"
  shows "segments_loop cfg fps ms i seg out =
     (case collect (map (\<lambda>(n, a, b). emit cfg fps n a b)
             (zip (map (\<lambda>k. seg + int k)
                     [1..<Suc (length (filter (\<lambda>(a, b). \<not> b - a < minDuration cfg)
                                   (map (\<lambda>j. (ms ! (j - 1), ms ! j)) [i..<length ms])))])
                  (filter (\<lambda>(a, b). \<not> b - a < minDuration cfg)
                     (map (\<lambda>j. (ms ! (j - 1), ms ! j)) [i..<length ms])))) of
        Inl e \<Rightarrow> Inl e
      | Inr ls \<Rightarrow> Inr (out @ ls))"
  using assms
proof (induction "length ms - i" arbitrary: i seg out)
  case 0
  then have "\<not> i < length ms" by simp
  then show ?case by (subst segments_loop.simps) simp
next
  case (Suc n)
  then have i: "i < length ms" by simp
  then have upt: "[i..<length ms] = i # [i + 1..<length ms]" by (simp add: upt_conv_Cons)
  have n: "n = length ms - (i + 1)" using Suc.hyps(2) by simp
  have i1: "1 \<le> i + 1" by simp
  note IH = Suc.hyps(1) [OF n i1]
  show ?case
  proof (cases "ms ! i - ms ! (i - 1) < minDuration cfg")
    case True
    then show ?thesis
      using i IH [of seg out] by (subst segments_loop.simps) (simp add: upt del: upt_Suc)
  next
    case False
    show ?thesis
    proof (cases "emit cfg fps (seg + 1) (ms ! (i - 1)) (ms ! i)")
      case (Inl e)
      then show ?thesis
        using i False
        by (subst segments_loop.simps) (simp add: upt number_shift Let_def del: upt_Suc)
    next
      case (Inr line)
      then show ?thesis
        using i False IH [of "seg + 1" "out @ [line]"]
        by (subst segments_loop.simps)
           (simp add: upt number_shift Let_def del: upt_Suc split: sum.split)
    qed
  qed
qed

lemma collect_Inr: "collect (map (\<lambda>x. Inr (f x)) xs) = Inr (map f xs)"
  by (induction xs) simp_all

lemma report_collect:
  "report cfg fps ms =
     collect (map (\<lambda>(n, a, b). emit cfg fps n a b) (numbered (surviving (minDuration cfg) ms)))"
proof -
  have "report cfg fps ms =
     (case collect (map (\<lambda>(n, a, b). emit cfg fps n a b)
                      (numbered (surviving (minDuration cfg) ms))) of
        Inl e \<Rightarrow> Inl e
      | Inr ls \<Rightarrow> Inr ([] @ ls))"
    unfolding report_def numbered_def surviving_def adjacent_nth
    by (subst segments_loop_collect) simp_all
  then show ?thesis by (simp split: sum.split)
qed

text \<open>
  Claim C5. For every marker list and minimum duration, the loop goes through the pairs
  of adjacent markers in order. A pair whose length (the difference of its two markers)
  is less than \<open>minDuration\<close> prints nothing and takes no number; the remaining pairs
  are printed in marker order with the numbers 1, 2, 3, ... without a gap and without a
  restart. This holds in both output modes (an exception thrown while a line is built
  ends the loop); in plain mode the lines are \<open>N: start - end\<close>.
\<close>

theorem segments_numbered_contiguously:
  "report cfg fps ms =
     collect (map (\<lambda>(n, a, b). emit cfg fps n a b) (numbered (surviving (minDuration cfg) ms))) \<and>
   (\<not> ffmpeg cfg \<longrightarrow>
      report cfg fps ms =
        Inr (map (\<lambda>(n, a, b). show_int n @ '': '' @ show_int a @ '' - '' @ show_int b @ ''\<newline>'')
               (numbered (surviving (minDuration cfg) ms))))"
proof (intro conjI impI)
  show "report cfg fps ms =
     collect (map (\<lambda>(n, a, b). emit cfg fps n a b) (numbered (surviving (minDuration cfg) ms)))"
    by (rule report_collect)
next
  assume plain: "\<not> ffmpeg cfg"
  have "(\<lambda>(n, a, b). emit cfg fps n a b) =
        (\<lambda>x. Inr ((\<lambda>(n, a, b). show_int n @ '': '' @ show_int a @ '' - '' @ show_int b @ ''\<newline>'') x))"
    using plain by (simp add: emit_def fun_eq_iff)
  then show "report cfg fps ms =
        Inr (map (\<lambda>(n, a, b). show_int n @ '': '' @ show_int a @ '' - '' @ show_int b @ ''\<newline>'')
               (numbered (surviving (minDuration cfg) ms)))"
    unfolding report_collect by (simp only: collect_Inr)
qed

theorem segments_numbered_contiguously_witness:
  "\<not> ffmpeg \<lparr>inputFile = ''clip.mp4'', saveImages = False, ffmpeg = False, threshold = 50, minDuration = 3\<rparr> \<and>
   surviving 3 [0, 5, 6, 9, 20] = [(0, 5), (6, 9), (9, 20)] \<and>
   numbered (surviving 3 [0, 5, 6, 9, 20]) = [(1, 0, 5), (2, 6, 9), (3, 9, 20)] \<and>
   report \<lparr>inputFile = ''clip.mp4'', saveImages = False, ffmpeg = False, threshold = 50, minDuration = 3\<rparr>
      30 [0, 5, 6, 9, 20] =
     Inr [''1: 0 - 5\<newline>'', ''2: 6 - 9\<newline>'', ''3: 9 - 20\<newline>'']"
proof -
  let ?cfg = "\<lparr>inputFile = ''clip.mp4'', saveImages = False, ffmpeg = False, threshold = 50, minDuration = 3\<rparr>"
  have p: "\<not> ffmpeg ?cfg" by simp
  have s: "surviving 3 [0, 5, 6, 9, 20] = [(0, 5), (6, 9), (9, 20)]" by code_simp
  have n: "numbered [(0 :: int, 5 :: int), (6, 9), (9, 20)] = [(1, 0, 5), (2, 6, 9), (3, 9, 20)]"
    by code_simp
  have l: "map (\<lambda>(n, a, b). show_int n @ '': '' @ show_int a @ '' - '' @ show_int b @ ''\<newline>'')
             [(1, 0, 5), (2, 6, 9), (3, 9, 20)] =
           [''1: 0 - 5\<newline>'', ''2: 6 - 9\<newline>'', ''3: 9 - 20\<newline>'']"
    by code_simp
  from segments_numbered_contiguously [of ?cfg 30 "[0, 5, 6, 9, 20]", THEN conjunct2, rule_format, OF p]
  have "report ?cfg 30 [0, 5, 6, 9, 20] =
          Inr [''1: 0 - 5\<newline>'', ''2: 6 - 9\<newline>'', ''3: 9 - 20\<newline>'']"
    by (simp only: config.simps s n l)
  with p s n show ?thesis by simp
qed

subsection \<open>The scan\<close>

lemma filter_upt_Suc:
  "filter P [0..<Suc n] = (if P 0 then [0] else []) @ map Suc (filter (P \<circ> Suc) [0..<n])"
proof -
  have "[0..<Suc n] = 0 # map Suc [0..<n]"
    by (simp add: map_Suc_upt upt_conv_Cons del: upt_Suc)
  then show ?thesis by (simp add: filter_map del: upt_Suc)
qed

lemma step_fields:
  assumes "score cur (previous st) (numPixels st) = Inr s"
  shows "\<exists>st'. step cfg st cur = Inr st' \<and>
           previous st' = cur \<and> numPixels st' = numPixels st \<and> lastScore st' = s \<and>
           frame st' = frame st + 1 \<and>
           markers st' = markers st @
             (if threshold cfg < s \<and> threshold cfg < \<bar>s - lastScore st\<bar> then [frame st] else [])"
  using assms by (simp add: step_def Let_def)

lemma scan_markers_gen:
  assumes "map2 (\<lambda>cur prev. score cur prev (numPixels st0)) rest (previous st0 # rest) = map Inr ss"
  shows "\<exists>st. scan cfg st0 rest = Inr st \<and>
           markers st = markers st0 @
             map (\<lambda>i. frame st0 + int i)
               (filter (\<lambda>i. threshold cfg < ss ! i \<and>
                            threshold cfg < \<bar>ss ! i - (lastScore st0 # ss) ! i\<bar>)
                  [0..<length ss]) \<and>
           frame st = frame st0 + int (length rest)"
  using assms
proof (induction rest arbitrary: st0 ss)
  case Nil
  then show ?case by simp
next
  case (Cons cur rest)
  from Cons.prems obtain s ss' where ss: "ss = s # ss'"
    and s: "score cur (previous st0) (numPixels st0) = Inr s"
    and rest: "map2 (\<lambda>cur prev. score cur prev (numPixels st0)) rest (cur # rest) = map Inr ss'"
    by (cases ss) auto
  from step_fields [OF s, of cfg] obtain st1 where
    st1: "step cfg st0 cur = Inr st1" and
    f: "previous st1 = cur" "numPixels st1 = numPixels st0" "lastScore st1 = s"
       "frame st1 = frame st0 + 1" and
    m: "markers st1 = markers st0 @
             (if threshold cfg < s \<and> threshold cfg < \<bar>s - lastScore st0\<bar> then [frame st0] else [])"
    by (elim exE conjE)
  from rest have "map2 (\<lambda>cur prev. score cur prev (numPixels st1)) rest (previous st1 # rest) = map Inr ss'"
    by (simp add: f)
  from Cons.IH [OF this] obtain st where
    st: "scan cfg st1 rest = Inr st" and
    ms: "markers st = markers st1 @
             map (\<lambda>i. frame st1 + int i)
               (filter (\<lambda>i. threshold cfg < ss' ! i \<and>
                            threshold cfg < \<bar>ss' ! i - (lastScore st1 # ss') ! i\<bar>)
                  [0..<length ss']) \<and>
           frame st = frame st1 + int (length rest)"
    by (elim exE conjE) simp
  have "scan cfg st0 (cur # rest) = Inr st" by (simp add: st1 st)
  moreover have "markers st = markers st0 @
             map (\<lambda>i. frame st0 + int i)
               (filter (\<lambda>i. threshold cfg < ss ! i \<and>
                            threshold cfg < \<bar>ss ! i - (lastScore st0 # ss) ! i\<bar>)
                  [0..<length ss])"
    unfolding ss length_Cons filter_upt_Suc
    by (simp add: ms m f comp_def add.assoc del: upt_Suc)
  moreover have "frame st = frame st0 + int (length (cur # rest))"
    using ms by (simp add: f)
  ultimately show ?case by (intro exI [of _ st] conjI)
qed

text \<open>On a stream of one resolution every score is defined.\<close>

lemma scores_exist_gen:
  assumes "0 < np" and "\<forall>f \<in> set rest. rows f = rows m \<and> cols f = cols m"
  shows "\<exists>ss. map2 (\<lambda>cur prev. score cur prev np) rest (m # rest) = map Inr ss"
  using assms(2)
proof (induction rest arbitrary: m)
  case Nil
  show ?case by simp
next
  case (Cons cur rest)
  from Cons.prems have d: "rows cur = rows m" "cols cur = cols m" by simp_all
  have "\<forall>f \<in> set rest. rows f = rows cur \<and> cols f = cols cur"
    unfolding d using Cons.prems by simp
  from Cons.IH [OF this] obtain ss where
    ss: "map2 (\<lambda>cur prev. score cur prev np) rest (cur # rest) = map Inr ss"
    by (elim exE)
  define s where "s = (\<Sum>p\<leftarrow>zip (data cur) (data m). \<bar>uint (fst p) - uint (snd p)\<bar>) div np"
  have s: "score cur m np = Inr s"
    unfolding s_def using d assms(1) by (rule score_value)
  have "map2 (\<lambda>cur prev. score cur prev np) (cur # rest) (m # cur # rest) = map Inr (s # ss)"
    by (simp add: s ss)
  then show ?case by (rule exI)
qed

lemma scores_exist:
  assumes "uniform m rest"
  shows "\<exists>ss. scores_of (rows m * cols m) m rest ss"
  using assms unfolding uniform_def scores_of_def by (intro scores_exist_gen) simp_all

lemma scores_of_length: "scores_of np m rest ss \<Longrightarrow> length ss = length rest"
  unfolding scores_of_def by (drule arg_cong [where f = length]) simp

lemma cut_frames_shift:
  "map (\<lambda>i. 1 + int i) (filter (\<lambda>i. th < ss ! i \<and> th < \<bar>ss ! i - (0 # ss) ! i\<bar>) [0..<length ss]) =
   cut_frames th ss"
proof -
  have "[1..<Suc (length ss)] = map Suc [0..<length ss]"
    by (simp add: map_Suc_upt del: upt_Suc)
  then show ?thesis
    by (simp add: cut_frames_def filter_map comp_def is_cut_def del: upt_Suc)
qed

lemma scan_first_frame:
  assumes "scores_of (rows m * cols m) m rest ss"
  shows "\<exists>st. scan cfg (first_frame cfg m) rest = Inr st \<and>
           markers st = 0 # cut_frames (threshold cfg) ss \<and>
           frame st = 1 + int (length rest)"
proof -
  have "map2 (\<lambda>cur prev. score cur prev (numPixels (first_frame cfg m))) rest
          (previous (first_frame cfg m) # rest) = map Inr ss"
    using assms by (simp add: scores_of_def first_frame_def)
  from scan_markers_gen [OF this, of cfg] obtain st where
    "scan cfg (first_frame cfg m) rest = Inr st" and
    "markers st = markers (first_frame cfg m) @
             map (\<lambda>i. frame (first_frame cfg m) + int i)
               (filter (\<lambda>i. threshold cfg < ss ! i \<and>
                            threshold cfg < \<bar>ss ! i - (lastScore (first_frame cfg m) # ss) ! i\<bar>)
                  [0..<length ss])" and
    "frame st = frame (first_frame cfg m) + int (length rest)"
    by (elim exE conjE)
  then show ?thesis
    by (intro exI [of _ st]) (simp add: first_frame_def cut_frames_shift)
qed

lemma set_cut_frames: "set (cut_frames th ss) = {int k |k. 1 \<le> k \<and> k \<le> length ss \<and> is_cut th ss k}"
  by (auto simp: cut_frames_def)

lemma sorted_cut_frames: "sorted_wrt (<) (cut_frames th ss)"
  unfolding cut_frames_def
  by (simp add: sorted_wrt_map sorted_wrt_filter del: upt_Suc)

lemma detect_markers:
  assumes "scores_of (rows m * cols m) m rest ss"
  shows "\<exists>d. detect cfg m rest = Inr d \<and>
           markers d = 0 # cut_frames (threshold cfg) ss @ [int (length rest)]"
proof -
  from scan_first_frame [OF assms, of cfg] obtain st where
    "scan cfg (first_frame cfg m) rest = Inr st" and
    "markers st = 0 # cut_frames (threshold cfg) ss" and
    "frame st = 1 + int (length rest)"
    by (elim exE conjE)
  then show ?thesis by (simp add: detect_def last_frame_def)
qed

lemma scores_of_nth:
  assumes "scores_of np m rest ss" and "1 \<le> k" and "k \<le> length rest"
  shows "score ((m # rest) ! k) ((m # rest) ! (k - 1)) np = Inr ((0 # ss) ! k)"
proof -
  from assms(2) obtain j where k: "k = Suc j" by (cases k) simp_all
  with assms(3) have j: "j < length rest" by simp
  have len: "length ss = length rest" by (rule scores_of_length [OF assms(1)])
  from assms(1) have "map2 (\<lambda>cur prev. score cur prev np) rest (m # rest) ! j = map Inr ss ! j"
    by (simp only: scores_of_def)
  with j len have "score (rest ! j) ((m # rest) ! j) np = Inr (ss ! j)" by simp
  then show ?thesis by (simp add: k)
qed

text \<open>
  Claim C3. On a stream of one resolution the loop returns, and for every frame \<open>k\<close> after
  the first the index \<open>k\<close> is in the marker list at the end of the loop (before the closing
  marker is appended) if and only if the score of frame \<open>k\<close> is greater than the threshold
  and the absolute difference between this score and the score of the frame before is
  greater than the same threshold; a frame that fails either condition is not appended.
  For frame 1 the score before is the initial \<open>lastScore = 0\<close>.
\<close>

theorem cut_appended_iff:
  assumes "uniform m rest"
  shows "\<exists>ss st. scores_of (rows m * cols m) m rest ss \<and>
           scan cfg (first_frame cfg m) rest = Inr st \<and>
           (\<forall>k \<in> {1..length rest}.
              score ((m # rest) ! k) ((m # rest) ! (k - 1)) (rows m * cols m) = Inr ((0 # ss) ! k) \<and>
              (int k \<in> set (markers st) \<longleftrightarrow>
                 threshold cfg < (0 # ss) ! k \<and>
                 threshold cfg < \<bar>(0 # ss) ! k - (0 # ss) ! (k - 1)\<bar>))"
proof -
  from scores_exist [OF assms] obtain ss where ss: "scores_of (rows m * cols m) m rest ss"
    by (elim exE)
  from scan_first_frame [OF ss, of cfg] obtain st where
    st: "scan cfg (first_frame cfg m) rest = Inr st" and
    ms: "markers st = 0 # cut_frames (threshold cfg) ss"
    by (elim exE conjE)
  have "score ((m # rest) ! k) ((m # rest) ! (k - 1)) (rows m * cols m) = Inr ((0 # ss) ! k) \<and>
        (int k \<in> set (markers st) \<longleftrightarrow>
           threshold cfg < (0 # ss) ! k \<and> threshold cfg < \<bar>(0 # ss) ! k - (0 # ss) ! (k - 1)\<bar>)"
    if "k \<in> {1..length rest}" for k
  proof
    from that show "score ((m # rest) ! k) ((m # rest) ! (k - 1)) (rows m * cols m) = Inr ((0 # ss) ! k)"
      by (intro scores_of_nth [OF ss]) simp_all
    from that have "int k \<in> set (markers st) \<longleftrightarrow> is_cut (threshold cfg) ss k"
      using scores_of_length [OF ss] by (auto simp: ms set_cut_frames)
    then show "int k \<in> set (markers st) \<longleftrightarrow>
           threshold cfg < (0 # ss) ! k \<and> threshold cfg < \<bar>(0 # ss) ! k - (0 # ss) ! (k - 1)\<bar>"
      by (simp only: is_cut_def)
  qed
  then have "\<forall>k \<in> {1..length rest}.
              score ((m # rest) ! k) ((m # rest) ! (k - 1)) (rows m * cols m) = Inr ((0 # ss) ! k) \<and>
              (int k \<in> set (markers st) \<longleftrightarrow>
                 threshold cfg < (0 # ss) ! k \<and>
                 threshold cfg < \<bar>(0 # ss) ! k - (0 # ss) ! (k - 1)\<bar>)"
    by (rule ballI)
  with ss st show ?thesis by (intro exI [of _ ss] exI [of _ st]) simp
qed

theorem cut_appended_iff_witness:
  "uniform (one_pixel 0) [one_pixel 80, one_pixel 180, one_pixel 100] \<and>
   (\<exists>ss st. scores_of (rows (one_pixel 0) * cols (one_pixel 0)) (one_pixel 0)
               [one_pixel 80, one_pixel 180, one_pixel 100] ss \<and>
      scan plain_options (first_frame plain_options (one_pixel 0))
        [one_pixel 80, one_pixel 180, one_pixel 100] = Inr st \<and>
      (\<forall>k \<in> {1..length [one_pixel 80, one_pixel 180, one_pixel 100]}.
          score ((one_pixel 0 # [one_pixel 80, one_pixel 180, one_pixel 100]) ! k)
            ((one_pixel 0 # [one_pixel 80, one_pixel 180, one_pixel 100]) ! (k - 1))
            (rows (one_pixel 0) * cols (one_pixel 0)) = Inr ((0 # ss) ! k) \<and>
          (int k \<in> set (markers st) \<longleftrightarrow>
             threshold plain_options < (0 # ss) ! k \<and>
             threshold plain_options < \<bar>(0 # ss) ! k - (0 # ss) ! (k - 1)\<bar>))) \<and>
   threshold plain_options = 50 \<and>
   scores_of 1 (one_pixel 0) [one_pixel 80, one_pixel 180, one_pixel 100] [80, 100, 80] \<and>
   is_cut 50 [80, 100, 80] 1 \<and> \<not> is_cut 50 [80, 100, 80] 2 \<and> \<not> is_cut 50 [80, 100, 80] 3 \<and>
   map_sum id markers
     (scan plain_options (first_frame plain_options (one_pixel 0))
        [one_pixel 80, one_pixel 180, one_pixel 100]) = Inr [0, 1]"
proof (intro conjI)
  show u: "uniform (one_pixel 0) [one_pixel 80, one_pixel 180, one_pixel 100]"
    by (simp add: uniform_def one_pixel_def)
  show "\<exists>ss st. scores_of (rows (one_pixel 0) * cols (one_pixel 0)) (one_pixel 0)
               [one_pixel 80, one_pixel 180, one_pixel 100] ss \<and>
      scan plain_options (first_frame plain_options (one_pixel 0))
        [one_pixel 80, one_pixel 180, one_pixel 100] = Inr st \<and>
      (\<forall>k \<in> {1..length [one_pixel 80, one_pixel 180, one_pixel 100]}.
          score ((one_pixel 0 # [one_pixel 80, one_pixel 180, one_pixel 100]) ! k)
            ((one_pixel 0 # [one_pixel 80, one_pixel 180, one_pixel 100]) ! (k - 1))
            (rows (one_pixel 0) * cols (one_pixel 0)) = Inr ((0 # ss) ! k) \<and>
          (int k \<in> set (markers st) \<longleftrightarrow>
             threshold plain_options < (0 # ss) ! k \<and>
             threshold plain_options < \<bar>(0 # ss) ! k - (0 # ss) ! (k - 1)\<bar>))"
    by (rule cut_appended_iff [OF u])
  show "threshold plain_options = 50" by (simp add: plain_options_def)
  show "scores_of 1 (one_pixel 0) [one_pixel 80, one_pixel 180, one_pixel 100] [80, 100, 80]"
    by code_simp
  show "is_cut 50 [80, 100, 80] 1" by code_simp
  show "\<not> is_cut 50 [80, 100, 80] 2" by code_simp
  show "\<not> is_cut 50 [80, 100, 80] 3" by code_simp
  show "map_sum id markers
     (scan plain_options (first_frame plain_options (one_pixel 0))
        [one_pixel 80, one_pixel 180, one_pixel 100]) = Inr [0, 1]"
    by code_simp
qed

text \<open>
  Claim C2, amended. For every stream of at least 2 frames of one resolution the scan
  returns, and the marker list is 0, then the indices of the detected cuts, each once
  and in increasing order (the order in which they were met), then the index of the
  final frame, appended whether or not a cut was detected there. The list is
  non-decreasing, its length is at least 2, its first element is 0 and its last element
  is the index of the final frame. It is strictly increasing exactly when the final
  frame is not a detected cut; when it is one, its index stands twice at the end of the
  list.
\<close>

theorem markers_of_scan:
  assumes "uniform m rest" and "rest \<noteq> []"
  shows "\<exists>ss d. scores_of (rows m * cols m) m rest ss \<and>
           detect cfg m rest = Inr d \<and>
           markers d = 0 # cut_frames (threshold cfg) ss @ [int (length rest)] \<and>
           sorted_wrt (<) (0 # cut_frames (threshold cfg) ss) \<and>
           set (cut_frames (threshold cfg) ss) \<subseteq> {1..int (length rest)} \<and>
           sorted (markers d) \<and>
           2 \<le> length (markers d) \<and>
           hd (markers d) = 0 \<and>
           last (markers d) = int (length rest) \<and>
           (sorted_wrt (<) (markers d) \<longleftrightarrow> \<not> is_cut (threshold cfg) ss (length rest))"
proof -
  from scores_exist [OF assms(1)] obtain ss where ss: "scores_of (rows m * cols m) m rest ss"
    by (elim exE)
  define cs where "cs = cut_frames (threshold cfg) ss"
  define n where "n = length rest"
  from detect_markers [OF ss, of cfg] obtain d where
    d: "detect cfg m rest = Inr d" and ms: "markers d = 0 # cs @ [int n]"
    unfolding cs_def n_def by (elim exE conjE)
  have len: "length ss = n" unfolding n_def by (rule scores_of_length [OF ss])
  have n: "1 \<le> n" using assms(2) by (cases rest) (simp_all add: n_def)
  have set_cs: "set cs = {int k |k. 1 \<le> k \<and> k \<le> n \<and> is_cut (threshold cfg) ss k}"
    unfolding cs_def set_cut_frames len ..
  have range: "set cs \<subseteq> {1..int n}" unfolding set_cs by auto
  have strict_cs: "sorted_wrt (<) cs" unfolding cs_def by (rule sorted_cut_frames)
  have strict0: "sorted_wrt (<) (0 # cs)" using strict_cs range by auto
  have sorted_all: "sorted (markers d)"
    unfolding ms using strict0 range
    by (auto simp: sorted_append strict_sorted_imp_sorted dest: strict_sorted_imp_sorted)
  have last_cut: "int n \<in> set cs \<longleftrightarrow> is_cut (threshold cfg) ss n"
    unfolding set_cs using n by auto
  have strict_iff: "sorted_wrt (<) (markers d) \<longleftrightarrow> \<not> is_cut (threshold cfg) ss n"
  proof -
    have "sorted_wrt (<) (markers d) \<longleftrightarrow> (\<forall>x \<in> set (0 # cs). x < int n)"
      unfolding ms using strict0
      by (simp only: append_Cons [symmetric] sorted_wrt_append) simp
    also have "\<dots> \<longleftrightarrow> int n \<notin> set cs"
    proof
      assume "\<forall>x \<in> set (0 # cs). x < int n"
      then show "int n \<notin> set cs" by fastforce
    next
      assume notin: "int n \<notin> set cs"
      show "\<forall>x \<in> set (0 # cs). x < int n"
      proof
        fix x assume "x \<in> set (0 # cs)"
        then consider "x = 0" | "x \<in> set cs" by auto
        then show "x < int n"
        proof cases
          case 1
          then show ?thesis using n by simp
        next
          case 2
          with range have "x \<le> int n" by auto
          moreover from 2 notin have "x \<noteq> int n" by metis
          ultimately show ?thesis by simp
        qed
      qed
    qed
    finally show ?thesis by (simp only: last_cut)
  qed
  show ?thesis
    using ss d ms strict0 range sorted_all strict_iff
    unfolding cs_def n_def
    by (intro exI [of _ ss] exI [of _ d] conjI) simp_all
qed

theorem markers_of_scan_witness:
  "uniform (one_pixel 0)
     [one_pixel 5, one_pixel 10, one_pixel 15, one_pixel 20, one_pixel 100,
      one_pixel 105, one_pixel 110, one_pixel 115, one_pixel 120] \<and>
   [one_pixel 5, one_pixel 10, one_pixel 15, one_pixel 20, one_pixel 100,
    one_pixel 105, one_pixel 110, one_pixel 115, one_pixel 120] \<noteq> [] \<and>
   scores_of 1 (one_pixel 0)
     [one_pixel 5, one_pixel 10, one_pixel 15, one_pixel 20, one_pixel 100,
      one_pixel 105, one_pixel 110, one_pixel 115, one_pixel 120]
     [5, 5, 5, 5, 80, 5, 5, 5, 5] \<and>
   cut_frames 50 [5, 5, 5, 5, 80, 5, 5, 5, 5] = [5] \<and>
   map_sum id markers
     (detect plain_options (one_pixel 0)
        [one_pixel 5, one_pixel 10, one_pixel 15, one_pixel 20, one_pixel 100,
         one_pixel 105, one_pixel 110, one_pixel 115, one_pixel 120]) = Inr [0, 5, 9] \<and>
   (\<exists>d. detect plain_options (one_pixel 0)
        [one_pixel 5, one_pixel 10, one_pixel 15, one_pixel 20, one_pixel 100,
         one_pixel 105, one_pixel 110, one_pixel 115, one_pixel 120] = Inr d \<and>
      sorted (markers d) \<and> 2 \<le> length (markers d) \<and> hd (markers d) = 0 \<and>
      last (markers d) = 9)"
proof (intro conjI)
  let ?rest = "[one_pixel 5, one_pixel 10, one_pixel 15, one_pixel 20, one_pixel 100,
      one_pixel 105, one_pixel 110, one_pixel 115, one_pixel 120]"
  show u: "uniform (one_pixel 0) ?rest" by (simp add: uniform_def one_pixel_def)
  show ne: "?rest \<noteq> []" by simp
  show "scores_of 1 (one_pixel 0) ?rest [5, 5, 5, 5, 80, 5, 5, 5, 5]" by code_simp
  show "cut_frames 50 [5, 5, 5, 5, 80, 5, 5, 5, 5] = [5]" by code_simp
  show "map_sum id markers (detect plain_options (one_pixel 0) ?rest) = Inr [0, 5, 9]"
    by code_simp
  from markers_of_scan [OF u ne, of plain_options] obtain ss d where
    "detect plain_options (one_pixel 0) ?rest = Inr d" and "sorted (markers d)" and
    "2 \<le> length (markers d)" and "hd (markers d) = 0" and
    "last (markers d) = int (length ?rest)"
    by (elim exE conjE)
  then show "\<exists>d. detect plain_options (one_pixel 0) ?rest = Inr d \<and>
      sorted (markers d) \<and> 2 \<le> length (markers d) \<and> hd (markers d) = 0 \<and>
      last (markers d) = 9"
    by (intro exI [of _ d]) simp
qed

text \<open>
  Claim C2 as the specification states it fails on a stream of 2 frames whose second
  frame is a detected cut: frame 1 is appended by the loop and again as the closing
  marker, so the list is \<open>[0, 1, 1]\<close>: not strictly increasing, with the index 1 twice.
\<close>

theorem markers_not_strictly_increasing:
  "detect \<lparr>inputFile = ''clip.mp4'', saveImages = False, ffmpeg = False, threshold = 50,
            minDuration = 1000\<rparr>
     \<lparr>rows = 1, cols = 1, data = [0]\<rparr> [\<lparr>rows = 1, cols = 1, data = [255]\<rparr>] =
   Inr \<lparr>previous = \<lparr>rows = 1, cols = 1, data = [255]\<rparr>, frame = 2, numPixels = 1,
        lastScore = 255, markers = [0, 1, 1], images = []\<rparr> \<and>
   \<not> sorted_wrt (<) [0, 1, 1 :: int] \<and>
   count_list [0, 1, 1 :: int] 1 = 2"
proof (intro conjI)
  show "detect \<lparr>inputFile = ''clip.mp4'', saveImages = False, ffmpeg = False, threshold = 50,
            minDuration = 1000\<rparr>
     \<lparr>rows = 1, cols = 1, data = [0]\<rparr> [\<lparr>rows = 1, cols = 1, data = [255]\<rparr>] =
   Inr \<lparr>previous = \<lparr>rows = 1, cols = 1, data = [255]\<rparr>, frame = 2, numPixels = 1,
        lastScore = 255, markers = [0, 1, 1], images = []\<rparr>"
    by code_simp
  show "\<not> sorted_wrt (<) [0, 1, 1 :: int]" by simp
  show "count_list [0, 1, 1 :: int] 1 = 2" by simp
qed

text \<open>
  Claim C1, amended. A video without a decodable frame makes \<open>main\<close> print
  \<open>need some frames\<close> and return 1, without scoring anything, as a video that cannot be
  opened makes it return 1. A stream of exactly one frame is not a failure: no score is
  computed, the marker list is \<open>[0, 0]\<close>, every run that returns from \<open>main\<close> returns 0,
  and with a positive minimum duration nothing is printed.
\<close>

theorem short_stream:
  assumes "inputFile cfg \<noteq> []"
  shows "main cfg None =
           Inr \<lparr>exit_code = 1, stdout = [],
                stderr = [inputFile cfg @ '': can'' @ [CHR 0x27] @ ''t open video\<newline>''],
                files = []\<rparr> \<and>
         (v_frames v = [] \<longrightarrow>
            main cfg (Some v) =
              Inr \<lparr>exit_code = 1, stdout = [],
                   stderr = [inputFile cfg @ '': need some frames\<newline>''], files = []\<rparr>) \<and>
         (\<exists>d. detect cfg m [] = Inr d \<and> markers d = [0, 0]) \<and>
         (v_frames v = [m] \<longrightarrow>
            (\<forall>r. main cfg (Some v) = Inr r \<longrightarrow> exit_code r = 0) \<and>
            (0 < minDuration cfg \<longrightarrow>
               main cfg (Some v) =
                 Inr \<lparr>exit_code = 0, stdout = [], stderr = [],
                      files = (if saveImages cfg then [save 0 ''in'', save 0 ''out''] else [])\<rparr>))"
proof (intro conjI impI allI)
  show "main cfg None =
           Inr \<lparr>exit_code = 1, stdout = [],
                stderr = [inputFile cfg @ '': can'' @ [CHR 0x27] @ ''t open video\<newline>''],
                files = []\<rparr>"
    using assms by (simp add: main_def)
next
  assume "v_frames v = []"
  then show "main cfg (Some v) =
              Inr \<lparr>exit_code = 1, stdout = [],
                   stderr = [inputFile cfg @ '': need some frames\<newline>''], files = []\<rparr>"
    using assms by (simp add: main_def)
next
  show "\<exists>d. detect cfg m [] = Inr d \<and> markers d = [0, 0]"
    by (simp add: detect_def first_frame_def last_frame_def)
next
  fix r
  assume "v_frames v = [m]" and "main cfg (Some v) = Inr r"
  then show "exit_code r = 0"
    using assms by (auto simp: main_def split: sum.splits)
next
  assume v: "v_frames v = [m]" and d: "0 < minDuration cfg"
  have rep: "report cfg (v_fps v) [0, 0] = Inr []"
    unfolding report_def using d
    by (subst segments_loop.simps, simp, subst segments_loop.simps, simp)
  show "main cfg (Some v) =
                 Inr \<lparr>exit_code = 0, stdout = [], stderr = [],
                      files = (if saveImages cfg then [save 0 ''in'', save 0 ''out''] else [])\<rparr>"
    using assms v by (simp add: main_def detect_def first_frame_def last_frame_def rep)
qed

theorem short_stream_witness:
  "inputFile plain_options \<noteq> [] \<and>
   v_frames \<lparr>v_frames = [], v_fps = 30\<rparr> = [] \<and>
   main plain_options (Some \<lparr>v_frames = [], v_fps = 30\<rparr>) =
     Inr \<lparr>exit_code = 1, stdout = [], stderr = [''clip.mp4: need some frames\<newline>''], files = []\<rparr> \<and>
   v_frames \<lparr>v_frames = [one_pixel 7], v_fps = 30\<rparr> = [one_pixel 7] \<and>
   0 < minDuration plain_options \<and>
   main plain_options (Some \<lparr>v_frames = [one_pixel 7], v_fps = 30\<rparr>) =
     Inr \<lparr>exit_code = 0, stdout = [], stderr = [], files = []\<rparr>"
proof -
  have i: "inputFile plain_options \<noteq> []" by (simp add: plain_options_def)
  have d: "0 < minDuration plain_options" by (simp add: plain_options_def)
  have f: "inputFile plain_options = ''clip.mp4''" "saveImages plain_options = False"
    by (simp_all add: plain_options_def)
  have e: "v_frames \<lparr>v_frames = [], v_fps = 30\<rparr> = []" by simp
  have o: "v_frames \<lparr>v_frames = [one_pixel 7], v_fps = 30\<rparr> = [one_pixel 7]" by simp
  note t0 = short_stream [OF i, of "\<lparr>v_frames = [], v_fps = 30\<rparr>" "one_pixel 7"]
  note t1 = short_stream [OF i, of "\<lparr>v_frames = [one_pixel 7], v_fps = 30\<rparr>" "one_pixel 7"]
  from t0 e have "main plain_options (Some \<lparr>v_frames = [], v_fps = 30\<rparr>) =
     Inr \<lparr>exit_code = 1, stdout = [], stderr = [''clip.mp4: need some frames\<newline>''], files = []\<rparr>"
    by (simp add: f)
  moreover from t1 o d have "main plain_options (Some \<lparr>v_frames = [one_pixel 7], v_fps = 30\<rparr>) =
     Inr \<lparr>exit_code = 0, stdout = [], stderr = [], files = []\<rparr>"
    by (simp add: f)
  ultimately show ?thesis using i d by simp
qed

text \<open>
  Claim C1 as the specification states it fails on a stream of one frame: with the
  default options \<open>main\<close> returns 0 and prints nothing.
\<close>

theorem one_frame_stream_exits_0:
  "main \<lparr>inputFile = ''clip.mp4'', saveImages = False, ffmpeg = False, threshold = 50,
          minDuration = 1000\<rparr>
     (Some \<lparr>v_frames = [\<lparr>rows = 1, cols = 1, data = [0]\<rparr>], v_fps = 30\<rparr>) =
   Inr \<lparr>exit_code = 0, stdout = [], stderr = [], files = []\<rparr>"
  by code_simp

end
